theory Spec2Isabelle
  imports Complex_Main "HOL-Library.Word" "HOL-Library.Multiset"
begin

unbundle bit_operations_syntax

section \<open>JavaScript numbers used by the generator\<close>

text \<open>
  Integers of the source (coordinates, cell indices, counters, char codes) are \<open>int\<close>.
  The values that the source computes as fractions (the result of \<open>random()\<close>, hole
  density, the metrics) are \<open>rat\<close>: the exact quotient, without the rounding of a
  double.  The 32-bit operators of JavaScript (\<open><<\<close>, \<open>>>>\<close>, \<open>^\<close>, \<open>|\<close>, \<open>&\<close>,
  \<open>Math.imul\<close>) first reduce their operands modulo \<open>2^32\<close>; they are written on
  \<open>32 word\<close>, read back as a signed value with \<open>sint\<close> and as an unsigned one with
  \<open>uint\<close>.
\<close>

type_synonym int32 = "32 word"

definition ToInt32 :: "int \<Rightarrow> int32" where
  "ToInt32 x = word_of_int x"

text \<open>\<open>x << n\<close> and \<open>x & y\<close>, whose results are signed 32-bit numbers.\<close>

definition js_shl :: "int \<Rightarrow> nat \<Rightarrow> int" where
  "js_shl x n = sint (push_bit n (ToInt32 x))"

definition js_and :: "int \<Rightarrow> int \<Rightarrow> int" where
  "js_and x y = sint (ToInt32 x AND ToInt32 y)"

section \<open>PRNG (lib/prng.ts)\<close>

text \<open>
  A string is the list of its UTF-16 code units, so \<open>str.charCodeAt(i)\<close> is \<open>str ! i\<close>.
  \<open>charCodes\<close> gives the code units of an ASCII literal.
\<close>

type_synonym jsstring = "int list"

definition charCodes :: "string \<Rightarrow> jsstring" where
  "charCodes s = map (\<lambda>c. int (of_char c)) s"

fun hashString_loop :: "jsstring \<Rightarrow> int \<Rightarrow> int" where
  "hashString_loop [] hash = hash"
| "hashString_loop (char # rest) hash =
     (let hash1 = (js_shl hash 5 - hash) + char;
          hash2 = js_and hash1 hash1
      in hashString_loop rest hash2)"

definition hashString :: "jsstring \<Rightarrow> int" where
  "hashString str = \<bar>hashString_loop str 0\<bar>"

text \<open>
  The generator object: \<open>prng_seed\<close> is the field \<open>seed\<close> of the class, \<open>prng_a\<close> the
  variable \<open>a\<close> captured by the closure that \<open>mulberry32\<close> returns.  \<open>a += 0x6D2B79F5\<close> is an addition of
  numbers, not of 32-bit values: \<open>a\<close> grows, and only the operators applied to \<open>t\<close>
  reduce it modulo \<open>2^32\<close>.
\<close>

record PRNG =
  prng_seed :: int
  prng_a :: int

definition PRNG_new :: "jsstring \<Rightarrow> PRNG" where
  "PRNG_new str = \<lparr>prng_seed = hashString str, prng_a = hashString str\<rparr>"

definition mulberry32_mix :: "int32 \<Rightarrow> int32" where
  "mulberry32_mix t0 =
     (let t1 = (t0 XOR drop_bit 15 t0) * (t0 OR 1);
          t2 = t1 XOR (t1 + (t1 XOR drop_bit 7 t1) * (t1 OR 61))
      in t2 XOR drop_bit 14 t2)"

definition random :: "PRNG \<Rightarrow> rat \<times> PRNG" where
  "random g =
     (let a' = prng_a g + 0x6D2B79F5
      in (of_int (uint (mulberry32_mix (ToInt32 a'))) / 4294967296, g\<lparr>prng_a := a'\<rparr>))"

definition randInt :: "int \<Rightarrow> int \<Rightarrow> PRNG \<Rightarrow> int \<times> PRNG" where
  "randInt lo hi g =
     (let (r, g') = random g in (\<lfloor>r * of_int (hi - lo + 1)\<rfloor> + lo, g'))"

text \<open>
  \<open>[result[i], result[j]] = [result[j], result[i]]\<close>: both reads happen before both
  writes.
\<close>

definition swap :: "'a list \<Rightarrow> nat \<Rightarrow> nat \<Rightarrow> 'a list" where
  "swap result i j = (result[i := result ! j])[j := result ! i]"

text \<open>
  The loop \<open>for (let i = result.length - 1; i > 0; i--)\<close> of \<open>shuffle\<close>, on the array
  \<open>result\<close>; the first argument is \<open>i\<close>.
\<close>

fun shuffle_loop :: "nat \<Rightarrow> 'a list \<Rightarrow> PRNG \<Rightarrow> 'a list \<times> PRNG" where
  "shuffle_loop 0 result g = (result, g)"
| "shuffle_loop (Suc n) result g =
     (let (j, g') = randInt 0 (int (Suc n)) g
      in shuffle_loop n (swap result (Suc n) (nat j)) g')"

definition shuffle :: "'a list \<Rightarrow> PRNG \<Rightarrow> 'a list \<times> PRNG" where
  "shuffle array g = shuffle_loop (length array - 1) array g"

text \<open>
  The same method on a store of arrays, where a reference is a position in the store:
  \<open>[...array]\<close> allocates a new array, and every swap writes to that one.
\<close>

type_synonym 'a store = "'a list list"

fun shuffle_loop_store :: "nat \<Rightarrow> 'a store \<Rightarrow> nat \<Rightarrow> PRNG \<Rightarrow> 'a store \<times> PRNG" where
  "shuffle_loop_store 0 st result g = (st, g)"
| "shuffle_loop_store (Suc n) st result g =
     (let (j, g') = randInt 0 (int (Suc n)) g
      in shuffle_loop_store n (st[result := swap (st ! result) (Suc n) (nat j)]) result g')"

definition shuffle_store :: "'a store \<Rightarrow> nat \<Rightarrow> PRNG \<Rightarrow> nat \<times> 'a store \<times> PRNG" where
  "shuffle_store st array g =
     (let result = length st;
          st1 = st @ [st ! array];
          (st2, g') = shuffle_loop_store (length (st1 ! result) - 1) st1 result g
      in (result, st2, g'))"

section \<open>The seed hash as the specification words it\<close>

text \<open>
  Wrapping to 32 bits, as a signed value; the accumulation \<open>hash = hash * 31 + charCode\<close>
  with the wrap at each step; the sign removed at the end.
\<close>

definition wrap32 :: "int \<Rightarrow> int" where
  "wrap32 x = (x + 2 ^ 31) mod 2 ^ 32 - 2 ^ 31"

fun rolling_hash :: "jsstring \<Rightarrow> int \<Rightarrow> int" where
  "rolling_hash [] hash = hash"
| "rolling_hash (c # cs) hash = rolling_hash cs (wrap32 (hash * 31 + c))"

definition spec_seed_hash :: "jsstring \<Rightarrow> int" where
  "spec_seed_hash str = \<bar>rolling_hash str 0\<bar>"

section \<open>Facts about the PRNG\<close>

lemma sint_ToInt32: "sint (ToInt32 x) = wrap32 x"
  by (simp add: ToInt32_def wrap32_def sint_sbintrunc' signed_take_bit_eq_take_bit_shift
      take_bit_eq_mod)

lemma hash_step: "js_and (js_shl h 5 - h + c) (js_shl h 5 - h + c) = wrap32 (h * 31 + c)"
proof -
  have "ToInt32 (js_shl h 5 - h + c) = ToInt32 (h * 31 + c)"
    by (simp add: js_shl_def ToInt32_def push_bit_eq_mult)
  then show ?thesis
    by (simp add: js_and_def sint_ToInt32)
qed

lemma hashString_loop_eq: "hashString_loop str h = rolling_hash str h"
  by (induction str arbitrary: h) (simp_all add: hash_step Let_def)

text \<open>
  C5.  For every string, the seed hash of the PRNG is the rolling hash
  \<open>hash = hash * 31 + charCode\<close>, wrapped to 32 bits at each step, with the sign removed
  at the end.
\<close>

theorem hashString_is_rolling_hash: "hashString str = spec_seed_hash str"
  by (simp add: hashString_def spec_seed_hash_def hashString_loop_eq)

section \<open>Facts about \<open>shuffle\<close>\<close>

lemma random_range: "0 \<le> fst (random g) \<and> fst (random g) < 1"
proof -
  define u where "u = uint (mulberry32_mix (ToInt32 (prng_a g + 0x6D2B79F5)))"
  have "0 \<le> u" "u < 4294967296"
    using uint_bounded [of "mulberry32_mix (ToInt32 (prng_a g + 0x6D2B79F5))"]
    by (simp_all add: u_def)
  then have "(0::rat) \<le> of_int u" "(of_int u :: rat) < 4294967296"
    by (simp, metis of_int_less_iff of_int_numeral)
  moreover have "fst (random g) = of_int u / 4294967296"
    by (simp add: random_def Let_def u_def)
  ultimately show ?thesis by simp
qed

lemma floor_scale_range:
  fixes r :: rat
  assumes "0 \<le> r" "r < 1" "0 < k"
  shows "0 \<le> \<lfloor>r * of_int k\<rfloor> \<and> \<lfloor>r * of_int k\<rfloor> < k"
proof -
  have "r * of_int k < of_int k"
    using assms by (simp add: mult_less_cancel_right1)
  then have "\<lfloor>r * of_int k\<rfloor> < k"
    by (simp add: floor_less_iff)
  moreover have "0 \<le> r * of_int k"
    using assms by simp
  ultimately show ?thesis by simp
qed

lemma randInt_range:
  assumes "lo \<le> hi"
  shows "lo \<le> fst (randInt lo hi g) \<and> fst (randInt lo hi g) \<le> hi"
proof -
  obtain r g' where rg: "random g = (r, g')" by (cases "random g")
  then have "0 \<le> r" "r < 1" using random_range [of g] by simp_all
  then have "0 \<le> \<lfloor>r * of_int (hi - lo + 1)\<rfloor> \<and> \<lfloor>r * of_int (hi - lo + 1)\<rfloor> < hi - lo + 1"
    using assms by (intro floor_scale_range) simp_all
  then show ?thesis by (simp add: randInt_def rg)
qed

lemma length_swap [simp]: "length (swap xs i j) = length xs"
  by (simp add: swap_def)

lemma mset_swap_eq: "i < length xs \<Longrightarrow> j < length xs \<Longrightarrow> mset (swap xs i j) = mset xs"
  by (simp add: swap_def mset_swap)

lemma shuffle_loop_perm:
  "n < length xs \<or> n = 0 \<Longrightarrow>
     mset (fst (shuffle_loop n xs g)) = mset xs \<and> length (fst (shuffle_loop n xs g)) = length xs"
proof (induction n arbitrary: xs g)
  case 0
  then show ?case by simp
next
  case (Suc n)
  obtain j g' where jg: "randInt 0 (int (Suc n)) g = (j, g')" by (cases "randInt 0 (int (Suc n)) g")
  have "0 \<le> j \<and> j \<le> int (Suc n)"
    using randInt_range [of 0 "int (Suc n)" g] jg by simp
  then have j: "nat j < length xs" using Suc.prems by auto
  have "mset (swap xs (Suc n) (nat j)) = mset xs"
    using Suc.prems j by (simp add: mset_swap_eq)
  moreover have "n < length (swap xs (Suc n) (nat j)) \<or> n = 0"
    using Suc.prems by simp
  moreover have "shuffle_loop (Suc n) xs g = shuffle_loop n (swap xs (Suc n) (nat j)) g'"
    by (simp only: shuffle_loop.simps jg Let_def split)
  ultimately show ?case
    using Suc.IH [of "swap xs (Suc n) (nat j)" g'] by simp
qed

lemma shuffle_perm:
  "mset (fst (shuffle xs g)) = mset xs \<and> length (fst (shuffle xs g)) = length xs"
  unfolding shuffle_def by (rule shuffle_loop_perm) (cases xs; simp)

lemma shuffle_loop_store_eq:
  "result < length st \<Longrightarrow>
     shuffle_loop_store n st result g =
       (st[result := fst (shuffle_loop n (st ! result) g)], snd (shuffle_loop n (st ! result) g))"
proof (induction n arbitrary: st g)
  case 0
  then show ?case by simp
next
  case (Suc n)
  then show ?case
    by (simp add: split_beta)
qed

text \<open>
  C10.  \<open>shuffle\<close> leaves the array it is given as it was (and every other array of the
  store), and returns a new array that holds the same elements with the same
  multiplicities, so one of the same length: a permutation of the input.
\<close>

theorem shuffle_fresh_permutation:
  assumes "array < length st"
  shows "case shuffle_store st array g of (result, st', g') \<Rightarrow>
           st' ! array = st ! array \<and> result \<noteq> array \<and> length st' = Suc (length st)
           \<and> (\<forall>r < length st. st' ! r = st ! r)
           \<and> st' ! result = fst (shuffle (st ! array) g)
           \<and> mset (st' ! result) = mset (st ! array)
           \<and> length (st' ! result) = length (st ! array)"
  using assms shuffle_perm [of "st ! array" g]
  by (simp add: shuffle_store_def Let_def shuffle_loop_store_eq split_beta nth_append shuffle_def)

theorem shuffle_fresh_permutation_witness:
  "(0::nat) < length [[10, 20, 30 :: int]] \<and>
   (case shuffle_store [[10, 20, 30 :: int]] 0 (PRNG_new (charCodes ''abc'')) of
      (result, st', g') \<Rightarrow>
        st' ! 0 = [[10, 20, 30]] ! 0 \<and> result \<noteq> 0 \<and> length st' = Suc (length [[10, 20, 30 :: int]])
        \<and> (\<forall>r < length [[10, 20, 30 :: int]]. st' ! r = [[10, 20, 30]] ! r)
        \<and> st' ! result = fst (shuffle ([[10, 20, 30]] ! 0) (PRNG_new (charCodes ''abc'')))
        \<and> mset (st' ! result) = mset ([[10, 20, 30]] ! 0)
        \<and> length (st' ! result) = length ([[10, 20, 30 :: int]] ! 0))"
proof -
  have h: "(0::nat) < length [[10, 20, 30 :: int]]" by simp
  show ?thesis
    using h shuffle_fresh_permutation [OF h, of "PRNG_new (charCodes ''abc'')"] by blast
qed

section \<open>Sets and maps of JavaScript\<close>

text \<open>
  A \<open>Set\<close> keeps its elements in insertion order, and \<open>Array.from\<close> and \<open>for ... of\<close>
  read them in that order: a set is the list of its elements, without repetition.  A
  \<open>Map\<close> is the list of its entries in insertion order.
\<close>

definition Set_has :: "'a list \<Rightarrow> 'a \<Rightarrow> bool" where
  "Set_has s x = (x \<in> set s)"

definition Set_add :: "'a \<Rightarrow> 'a list \<Rightarrow> 'a list" where
  "Set_add x s = (if Set_has s x then s else s @ [x])"

definition Set_delete :: "'a \<Rightarrow> 'a list \<Rightarrow> 'a list" where
  "Set_delete x s = removeAll x s"

definition Set_size :: "'a list \<Rightarrow> nat" where
  "Set_size s = length s"

fun Map_set :: "'k \<Rightarrow> 'v \<Rightarrow> ('k \<times> 'v) list \<Rightarrow> ('k \<times> 'v) list" where
  "Map_set k v [] = [(k, v)]"
| "Map_set k v ((k', v') # m) = (if k = k' then (k, v) # m else (k', v') # Map_set k v m)"

section \<open>Levels and the paint model (types/index.ts, lib/paint.ts)\<close>

text \<open>
  The fields of the records carry a prefix for the record they belong to (\<open>lv_\<close> for
  \<open>Level\<close>, \<open>p_\<close> for \<open>GameParams\<close>, \<open>dm_\<close> for \<open>DifficultyMetrics\<close>, \<open>pm_\<close> for
  \<open>PaintModel\<close>), since several
  interfaces of the source share field names.  An optional field is an \<open>option\<close>.
  A number that may be \<open>NaN\<close> (the result of \<open>parseInt\<close> and \<open>parseFloat\<close>) is a
  \<open>number\<close>; \<open>v\<close>, \<open>m\<close>, \<open>w\<close>, \<open>h\<close> and \<open>k\<close> hold integers, \<open>hd\<close> a fraction.
\<close>

datatype 'a number = NaN | Num 'a

record GameParams =
  p_v :: "int number option"
  p_m :: "int number option"
  p_w :: "int number option"
  p_h :: "int number option"
  p_k :: "int number option"
  p_hd :: "rat number option"
  p_diff :: "jsstring option"
  p_seed :: "jsstring option"

record DifficultyMetrics =
  dm_size :: int
  dm_holeDensity :: rat
  dm_branchingFactor :: rat
  dm_forcedMoveRatio :: rat
  dm_corridorsPercent :: rat
  dm_turnRate :: rat

record Level =
  lv_v :: int
  lv_mode :: int
  lv_w :: int
  lv_h :: int
  lv_open :: "int list"
  lv_starts :: "(int \<times> int) list"
  lv_pairs :: "(int \<times> int \<times> int) list option"
  lv_solution :: "int list"
  lv_metrics :: DifficultyMetrics
  lv_seed :: jsstring
  lv_params :: GameParams

text \<open>An entry of \<open>starts\<close> is \<open>(color, i)\<close>, an entry of \<open>pairs\<close> is \<open>(color, a, b)\<close>.\<close>

record PaintModel =
  pm_width :: int
  pm_height :: int
  pm_openCells :: "int list"
  pm_startCells :: "(int \<times> int) list"
  pm_endCells :: "(int \<times> int) list"

definition PaintModel_new :: "Level \<Rightarrow> PaintModel" where
  "PaintModel_new level =
     \<lparr>pm_width = lv_w level,
      pm_height = lv_h level,
      pm_openCells =
        fold (\<lambda>i cells. if lv_open level ! i = 1 then Set_add (int i) cells else cells)
          [0..<length (lv_open level)] [],
      pm_startCells = fold (\<lambda>(color, i) m. Map_set i color m) (lv_starts level) [],
      pm_endCells =
        (case lv_pairs level of
           None \<Rightarrow> []
         | Some pairs \<Rightarrow>
             fold (\<lambda>(color, a, b) m. Map_set b color (Map_set a color m)) pairs [])\<rparr>"

definition isValidCell :: "PaintModel \<Rightarrow> int \<Rightarrow> bool" where
  "isValidCell pm index = Set_has (pm_openCells pm) index"

text \<open>
  \<open>index % width\<close> and \<open>Math.floor(index / width)\<close>, for the cell indices of a level,
  which are not negative, and a positive width.
\<close>

definition areNeighbors :: "int \<Rightarrow> int \<Rightarrow> int \<Rightarrow> bool" where
  "areNeighbors width index1 index2 =
     (let x1 = index1 mod width; y1 = index1 div width;
          x2 = index2 mod width; y2 = index2 div width;
          dx = \<bar>x1 - x2\<bar>; dy = \<bar>y1 - y2\<bar>
      in (dx = 1 \<and> dy = 0) \<or> (dx = 0 \<and> dy = 1))"

definition coveredCells :: "(int \<times> int list) list \<Rightarrow> int list" where
  "coveredCells paths = fold (\<lambda>(color, path) covered. fold Set_add path covered) paths []"

definition checkCoverage :: "PaintModel \<Rightarrow> (int \<times> int list) list \<Rightarrow> bool" where
  "checkCoverage pm paths = (Set_size (coveredCells paths) = Set_size (pm_openCells pm))"

text \<open>The open set of a level: the indices \<open>i\<close> with \<open>open[i] = 1\<close>.\<close>

definition OpenSet :: "Level \<Rightarrow> int set" where
  "OpenSet level = {i. 0 \<le> i \<and> i < int (length (lv_open level)) \<and> lv_open level ! nat i = 1}"

text \<open>The union of the cells of the paths of a mapping from colours to paths.\<close>

definition path_cells :: "(int \<times> int list) list \<Rightarrow> int set" where
  "path_cells paths = (\<Union>(color, path) \<in> set paths. set path)"

lemma fold_Set_add: "set (fold Set_add xs s) = set s \<union> set xs \<and> (distinct s \<longrightarrow> distinct (fold Set_add xs s))"
  by (induction xs arbitrary: s) (auto simp: Set_add_def Set_has_def)

lemma coveredCells_fold:
  "set (fold (\<lambda>(color, path) covered. fold Set_add path covered) paths s) = set s \<union> path_cells paths
   \<and> (distinct s \<longrightarrow> distinct (fold (\<lambda>(color, path) covered. fold Set_add path covered) paths s))"
proof (induction paths arbitrary: s)
  case Nil
  then show ?case by (simp add: path_cells_def)
next
  case (Cons p paths)
  obtain color path where p: "p = (color, path)" by (cases p)
  show ?case
    using Cons.IH [of "fold Set_add path s"] fold_Set_add [of path s]
    by (auto simp: p path_cells_def)
qed

lemma coveredCells_set: "set (coveredCells paths) = path_cells paths" "distinct (coveredCells paths)"
  using coveredCells_fold [of paths "[]"] by (simp_all add: coveredCells_def)

lemma openCells_fold:
  "set (fold (\<lambda>i cells. if opn ! i = 1 then Set_add (int i) cells else cells) is s)
     = set s \<union> {int i |i. i \<in> set is \<and> opn ! i = (1::int)}
   \<and> (distinct s \<longrightarrow>
        distinct (fold (\<lambda>i cells. if opn ! i = 1 then Set_add (int i) cells else cells) is s))"
  by (induction "is" arbitrary: s) (auto simp: Set_add_def Set_has_def)

lemma openCells_set:
  "set (pm_openCells (PaintModel_new level)) = OpenSet level"
  "distinct (pm_openCells (PaintModel_new level))"
proof -
  have "{int i |i. i \<in> set [0..<length (lv_open level)] \<and> lv_open level ! i = 1} = OpenSet level"
  proof (intro set_eqI iffI)
    fix j assume "j \<in> {int i |i. i \<in> set [0..<length (lv_open level)] \<and> lv_open level ! i = 1}"
    then obtain i where "j = int i" "i < length (lv_open level)" "lv_open level ! i = 1" by auto
    then show "j \<in> OpenSet level" by (simp add: OpenSet_def)
  next
    fix j assume "j \<in> OpenSet level"
    then have "j = int (nat j)" "nat j < length (lv_open level)" "lv_open level ! nat j = 1"
      by (auto simp: OpenSet_def nat_less_iff)
    then show "j \<in> {int i |i. i \<in> set [0..<length (lv_open level)] \<and> lv_open level ! i = 1}"
      by (metis (mono_tags, lifting) atLeastLessThan_iff mem_Collect_eq set_upt zero_le)
  qed
  then show "set (pm_openCells (PaintModel_new level)) = OpenSet level"
    using openCells_fold [of "lv_open level" "[0..<length (lv_open level)]" "[]"]
    by (simp add: PaintModel_new_def)
  show "distinct (pm_openCells (PaintModel_new level))"
    using openCells_fold [of "lv_open level" "[0..<length (lv_open level)]" "[]"]
    by (simp add: PaintModel_new_def)
qed

lemma checkCoverage_card:
  "checkCoverage (PaintModel_new level) paths \<longleftrightarrow> card (path_cells paths) = card (OpenSet level)"
  using coveredCells_set [of paths] openCells_set [of level]
  by (metis checkCoverage_def Set_size_def distinct_card)

lemma checkCoverage_of_equal:
  "path_cells paths = OpenSet level \<Longrightarrow> checkCoverage (PaintModel_new level) paths"
  by (simp add: checkCoverage_card)

lemma checkCoverage_when_open:
  assumes "path_cells paths \<subseteq> OpenSet level"
  shows "checkCoverage (PaintModel_new level) paths \<longleftrightarrow> path_cells paths = OpenSet level"
proof -
  have "finite (OpenSet level)"
    using openCells_set(1) [of level] by (metis List.finite_set)
  then show ?thesis
    using assms by (metis checkCoverage_card card_subset_eq)
qed

definition level_c7 :: Level where
  "level_c7 =
     \<lparr>lv_v = 1, lv_mode = 1, lv_w = 2, lv_h = 1, lv_open = [1, 0], lv_starts = [(0, 0)],
      lv_pairs = None, lv_solution = [],
      lv_metrics = \<lparr>dm_size = 1, dm_holeDensity = 1 / 2, dm_branchingFactor = 0,
        dm_forcedMoveRatio = 0, dm_corridorsPercent = 0, dm_turnRate = 0\<rparr>,
      lv_seed = charCodes ''s'',
      lv_params = \<lparr>p_v = None, p_m = None, p_w = None, p_h = None, p_k = None, p_hd = None,
        p_diff = None, p_seed = None\<rparr>\<rparr>"

text \<open>
  C7.  The claim is that \<open>checkCoverage\<close> returns true if and only if the union of the
  cells of the paths is the open set.  The method compares the two sizes and nothing
  else (\<open>checkCoverage_card\<close>): on the level of width 2 and height 1 whose only open
  cell is 0, the single path \<open>[1]\<close> is accepted, although it covers the blocked cell
  and leaves the open one uncovered.
\<close>

theorem checkCoverage_compares_sizes_only:
  "checkCoverage (PaintModel_new level_c7) [(0, [1])] \<and> path_cells [(0, [1])] \<noteq> OpenSet level_c7"
proof -
  have "checkCoverage (PaintModel_new level_c7) [(0, [1])]"
    by (simp add: checkCoverage_def coveredCells_def PaintModel_new_def level_c7_def
        Set_size_def Set_add_def Set_has_def)
  moreover have "(1::int) \<notin> OpenSet level_c7"
    by (simp add: OpenSet_def level_c7_def)
  moreover have "(1::int) \<in> path_cells [(0, [1])]"
    by (simp add: path_cells_def)
  ultimately show ?thesis by metis
qed

section \<open>Irregular regions (lib/irRegion.ts)\<close>

text \<open>
  The source keys a cell by the string \<open>x,y\<close> and splits the key to read the
  coordinates back; here the key is the pair of the coordinates.
\<close>

type_synonym cell = "int \<times> int"

record IRRegion =
  rg_cells :: "cell list"
  rg_width :: int
  rg_height :: int
  rg_minX :: int
  rg_maxX :: int
  rg_minY :: int
  rg_maxY :: int

text \<open>The body of the loop over the four neighbours in \<open>addNeighborsToFrontier\<close>.\<close>

definition frontier_step :: "int \<Rightarrow> int \<Rightarrow> cell list \<Rightarrow> cell \<Rightarrow> cell list \<Rightarrow> cell list" where
  "frontier_step width height cells n frontier =
     (if fst n \<ge> 0 \<and> fst n < width \<and> snd n \<ge> 0 \<and> snd n < height
      then (if \<not> Set_has cells n \<and> \<not> Set_has frontier n
            then Set_add n frontier else frontier)
      else frontier)"

definition addNeighborsToFrontier ::
    "int \<Rightarrow> int \<Rightarrow> int \<Rightarrow> int \<Rightarrow> cell list \<Rightarrow> cell list \<Rightarrow> cell list" where
  "addNeighborsToFrontier x y width height cells frontier =
     fold (frontier_step width height cells)
       [(x - 1, y), (x + 1, y), (x, y - 1), (x, y + 1)] frontier"

lemma random_index_range:
  assumes "0 < n"
  shows "nat \<lfloor>fst (random g) * of_nat n\<rfloor> < n"
proof -
  have "0 \<le> \<lfloor>fst (random g) * of_int (int n)\<rfloor> \<and> \<lfloor>fst (random g) * of_int (int n)\<rfloor> < int n"
    using random_range [of g] assms by (intro floor_scale_range) simp_all
  then show ?thesis by (simp add: nat_less_iff)
qed

lemma frontier_step_filter:
  "filter (\<lambda>c. c \<in> set cells) (frontier_step width height cells n frontier)
     = filter (\<lambda>c. c \<in> set cells) frontier"
  by (simp add: frontier_step_def Set_add_def Set_has_def)

lemma fold_frontier_step_filter:
  "filter (\<lambda>c. c \<in> set cells) (fold (frontier_step width height cells) ns frontier)
     = filter (\<lambda>c. c \<in> set cells) frontier"
  by (induction ns arbitrary: frontier) (simp_all add: frontier_step_filter)

lemma addNeighborsToFrontier_filter:
  "filter (\<lambda>c. c \<in> set cells) (addNeighborsToFrontier x y width height cells frontier)
     = filter (\<lambda>c. c \<in> set cells) frontier"
  unfolding addNeighborsToFrontier_def by (rule fold_frontier_step_filter)

function grow ::
    "int \<Rightarrow> int \<Rightarrow> int \<Rightarrow> cell list \<Rightarrow> cell list \<Rightarrow> PRNG \<Rightarrow> cell list \<times> cell list \<times> PRNG" where
  "grow width height targetCells cells frontier g =
     (if int (Set_size cells) < targetCells \<and> Set_size frontier > 0
      then
        (let frontierArray = frontier;
             rg = random g;
             idx = \<lfloor>fst rg * of_nat (length frontierArray)\<rfloor>;
             cell = frontierArray ! nat idx;
             frontier1 = Set_delete cell frontier;
             cells1 = Set_add cell cells;
             frontier2 = addNeighborsToFrontier (fst cell) (snd cell) width height cells1 frontier1
         in grow width height targetCells cells1 frontier2 (snd rg))
      else (cells, frontier, g))"
  by pat_completeness auto
termination
proof (relation "measures [\<lambda>(width, height, targetCells, cells, frontier, g). nat (targetCells - int (length cells)),
                          \<lambda>(width, height, targetCells, cells, frontier, g). length (filter (\<lambda>c. c \<in> set cells) frontier)]",
       goal_cases)
  case 1
  then show ?case by simp
next
  case (2 width height targetCells cells frontier g frontierArray rg idx cell frontier1 cells1 frontier2)
  have idx: "nat idx < length frontier"
    using 2 random_index_range [of "length frontier" g] by (simp add: Set_size_def)
  then have cell_in: "cell \<in> set frontier" using 2 by simp
  show ?case
  proof (cases "cell \<in> set cells")
    case False
    then have "length cells1 = Suc (length cells)"
      using 2 by (simp add: Set_add_def Set_has_def)
    then show ?thesis using 2(1) by (simp add: Set_size_def)
  next
    case True
    then have c1: "cells1 = cells" using 2 by (simp add: Set_add_def Set_has_def)
    have "filter (\<lambda>c. c \<in> set cells) frontier2 = filter (\<lambda>c. c \<in> set cells) (removeAll cell frontier)"
      using 2 c1 by (simp add: addNeighborsToFrontier_filter Set_delete_def)
    moreover have "length (filter (\<lambda>c. c \<in> set cells) (removeAll cell frontier))
       < length (filter (\<lambda>c. c \<in> set cells) frontier)"
    proof -
      have "filter (\<lambda>c. c \<in> set cells) (removeAll cell frontier)
              = removeAll cell (filter (\<lambda>c. c \<in> set cells) frontier)"
        by (induction frontier) auto
      moreover have "cell \<in> set (filter (\<lambda>c. c \<in> set cells) frontier)"
        using True cell_in by simp
      ultimately show ?thesis
        by (metis length_removeAll_less)
    qed
    ultimately show ?thesis using c1 by simp
  qed
qed

declare grow.simps [simp del]


definition region_bounds :: "int \<Rightarrow> int \<Rightarrow> cell list \<Rightarrow> int \<times> int \<times> int \<times> int" where
  "region_bounds width height cells =
     fold (\<lambda>(x, y) (minX, maxX, minY, maxY). (min minX x, max maxX x, min minY y, max maxY y))
       cells (width, 0, height, 0)"

text \<open>
  \<open>generateIRRegion\<close> draws from the generator it is given; the state of the
  generator after the call is the second component of the result.
\<close>

definition generateIRRegion :: "int \<Rightarrow> int \<Rightarrow> PRNG \<Rightarrow> rat \<Rightarrow> IRRegion \<times> PRNG" where
  "generateIRRegion width height prng fillRatio =
     (let targetCells = \<lfloor>of_int width * of_int height * fillRatio\<rfloor>;
          startX = width div 2;
          startY = height div 2;
          cells = Set_add (startX, startY) [];
          frontier = addNeighborsToFrontier startX startY width height cells [];
          grown = grow width height targetCells cells frontier prng;
          (minX, maxX, minY, maxY) = region_bounds width height (fst grown)
      in (\<lparr>rg_cells = fst grown,
           rg_width = maxX - minX + 1,
           rg_height = maxY - minY + 1,
           rg_minX = minX, rg_maxX = maxX, rg_minY = minY, rg_maxY = maxY\<rparr>,
          snd (snd grown)))"

definition normalizeRegion :: "IRRegion \<Rightarrow> IRRegion" where
  "normalizeRegion region =
     \<lparr>rg_cells =
        fold (\<lambda>(x, y) normalized. Set_add (x - rg_minX region, y - rg_minY region) normalized)
          (rg_cells region) [],
      rg_width = rg_width region,
      rg_height = rg_height region,
      rg_minX = 0, rg_maxX = rg_width region - 1,
      rg_minY = 0, rg_maxY = rg_height region - 1\<rparr>"

section \<open>Connected sets of cells\<close>

text \<open>
  A set is one connected component under an adjacency when it is not empty and any two
  of its elements are joined by a chain of adjacent elements of the set.
\<close>

definition connected_by :: "('a \<Rightarrow> 'a \<Rightarrow> bool) \<Rightarrow> 'a set \<Rightarrow> bool" where
  "connected_by adj S \<longleftrightarrow>
     S \<noteq> {} \<and> (\<forall>p\<in>S. \<forall>q\<in>S. (p, q) \<in> {(c, d). c \<in> S \<and> d \<in> S \<and> adj c d}\<^sup>*)"

text \<open>Two cells are 4-adjacent when they share an edge.\<close>

definition adjacent4 :: "cell \<Rightarrow> cell \<Rightarrow> bool" where
  "adjacent4 p q \<longleftrightarrow> \<bar>fst p - fst q\<bar> + \<bar>snd p - snd q\<bar> = 1"

definition in_bounds :: "int \<Rightarrow> int \<Rightarrow> cell \<Rightarrow> bool" where
  "in_bounds width height c \<longleftrightarrow> 0 \<le> fst c \<and> fst c < width \<and> 0 \<le> snd c \<and> snd c < height"

lemma connected_by_singleton: "connected_by adj {c}"
  by (simp add: connected_by_def)

lemma connected_by_insert:
  assumes S: "connected_by adj S" and c: "c \<in> S" and cf: "adj c f" and fc: "adj f c"
  shows "connected_by adj (insert f S)"
proof -
  let ?R = "{(c, d). c \<in> S \<and> d \<in> S \<and> adj c d}"
  let ?R' = "{(c, d). c \<in> insert f S \<and> d \<in> insert f S \<and> adj c d}"
  have mono: "?R\<^sup>* \<subseteq> ?R'\<^sup>*" by (rule rtrancl_mono) auto
  have cf': "(c, f) \<in> ?R'" and fc': "(f, c) \<in> ?R'" using c cf fc by auto
  have old: "(p, q) \<in> ?R'\<^sup>*" if "p \<in> S" "q \<in> S" for p q
    using S that mono by (auto simp: connected_by_def)
  have "(p, q) \<in> ?R'\<^sup>*" if p: "p \<in> insert f S" and q: "q \<in> insert f S" for p q
  proof (cases "p = f")
    case pf: True
    show ?thesis
    proof (cases "q = f")
      case True
      then show ?thesis using pf by simp
    next
      case False
      then have "(c, q) \<in> ?R'\<^sup>*" using q c old by simp
      then show ?thesis using fc' pf by (meson converse_rtrancl_into_rtrancl)
    qed
  next
    case pf: False
    show ?thesis
    proof (cases "q = f")
      case True
      have "(p, c) \<in> ?R'\<^sup>*" using p pf c old by simp
      then show ?thesis using cf' True by (meson rtrancl_into_rtrancl)
    next
      case False
      then show ?thesis using p q pf old by simp
    qed
  qed
  then show ?thesis by (simp add: connected_by_def)
qed

lemma connected_by_image:
  assumes S: "connected_by adj S"
    and pres: "\<And>c d. c \<in> S \<Longrightarrow> d \<in> S \<Longrightarrow> adj c d \<Longrightarrow> adj' (f c) (f d)"
  shows "connected_by adj' (f ` S)"
proof -
  let ?R = "{(c, d). c \<in> S \<and> d \<in> S \<and> adj c d}"
  let ?R' = "{(c, d). c \<in> f ` S \<and> d \<in> f ` S \<and> adj' c d}"
  have step: "(f p, f q) \<in> ?R'\<^sup>*" if "(p, q) \<in> ?R\<^sup>*" for p q
    using that
  proof (induction rule: rtrancl_induct)
    case base
    then show ?case by simp
  next
    case (step y z)
    then have "(f y, f z) \<in> ?R'" using pres by auto
    then show ?case using step.IH by (meson rtrancl_into_rtrancl)
  qed
  show ?thesis
    using S step by (auto simp: connected_by_def)
qed


section \<open>The grown region is connected\<close>

lemma adjacent4_sym: "adjacent4 p q \<Longrightarrow> adjacent4 q p"
  by (simp add: adjacent4_def abs_minus_commute)

lemma set_Set_add [simp]: "set (Set_add x s) = insert x (set s)"
  by (auto simp: Set_add_def Set_has_def)

lemma distinct_Set_add [simp]: "distinct (Set_add x s) = distinct s"
  by (auto simp: Set_add_def Set_has_def)

lemma fold_frontier_step_set:
  "set (fold (frontier_step width height cells) ns frontier)
     \<subseteq> set frontier \<union> {n \<in> set ns. in_bounds width height n}"
proof (induction ns arbitrary: frontier)
  case Nil
  then show ?case by simp
next
  case (Cons n ns)
  have "set (frontier_step width height cells n frontier)
          \<subseteq> set frontier \<union> {m. m = n \<and> in_bounds width height n}"
    by (auto simp: frontier_step_def in_bounds_def)
  then show ?case
    using Cons.IH [of "frontier_step width height cells n frontier"] by auto
qed

lemma addNeighborsToFrontier_set:
  assumes "f \<in> set (addNeighborsToFrontier x y width height cells frontier)"
  shows "f \<in> set frontier \<or> (in_bounds width height f \<and> adjacent4 (x, y) f)"
proof -
  have "f \<in> set frontier \<union> {n \<in> set [(x - 1, y), (x + 1, y), (x, y - 1), (x, y + 1)].
          in_bounds width height n}"
    using assms fold_frontier_step_set unfolding addNeighborsToFrontier_def by blast
  then show ?thesis
    by (auto simp: adjacent4_def)
qed

text \<open>
  What the loop keeps: the region is not empty, has no repeated cell, lies in the
  rectangle and is connected, and each cell of the frontier lies in the rectangle next to
  a cell of the region.
\<close>

definition region_inv :: "int \<Rightarrow> int \<Rightarrow> cell list \<Rightarrow> cell list \<Rightarrow> bool" where
  "region_inv width height cells frontier \<longleftrightarrow>
     cells \<noteq> [] \<and> distinct cells \<and> connected_by adjacent4 (set cells)
     \<and> (\<forall>c\<in>set cells. in_bounds width height c)
     \<and> (\<forall>f\<in>set frontier. in_bounds width height f \<and> (\<exists>c\<in>set cells. adjacent4 c f))"

lemma region_inv_step:
  assumes inv: "region_inv width height cells frontier" and cell: "cell \<in> set frontier"
  shows "region_inv width height (Set_add cell cells)
           (addNeighborsToFrontier (fst cell) (snd cell) width height (Set_add cell cells)
              (Set_delete cell frontier))"
proof -
  obtain c where c: "c \<in> set cells" "adjacent4 c cell" and cb: "in_bounds width height cell"
    using inv cell by (auto simp: region_inv_def)
  have conn: "connected_by adjacent4 (insert cell (set cells))"
    using inv c by (intro connected_by_insert [of _ _ c]) (auto simp: region_inv_def adjacent4_sym)
  have front: "in_bounds width height f \<and> (\<exists>c\<in>insert cell (set cells). adjacent4 c f)"
    if "f \<in> set (addNeighborsToFrontier (fst cell) (snd cell) width height (Set_add cell cells)
              (Set_delete cell frontier))" for f
    using addNeighborsToFrontier_set [OF that] inv
    by (auto simp: region_inv_def Set_delete_def)
  have "Set_add cell cells \<noteq> []"
    by (auto simp: Set_add_def Set_has_def)
  moreover have "distinct (Set_add cell cells)"
    using inv by (simp add: region_inv_def)
  moreover have "\<forall>c\<in>set (Set_add cell cells). in_bounds width height c"
    using inv cb by (simp add: region_inv_def)
  ultimately show ?thesis
    unfolding region_inv_def using conn front by simp
qed

lemma grow_inv:
  "region_inv width height cells frontier \<Longrightarrow>
     region_inv width height (fst (grow width height targetCells cells frontier g))
       (fst (snd (grow width height targetCells cells frontier g)))"
proof (induction width height targetCells cells frontier g rule: grow.induct)
  case (1 width height targetCells cells frontier g)
  show ?case
  proof (cases "int (Set_size cells) < targetCells \<and> Set_size frontier > 0")
    case False
    have "grow width height targetCells cells frontier g = (cells, frontier, g)"
      by (subst grow.simps) (simp only: False if_False)
    then show ?thesis using "1.prems" by simp
  next
    case True
    define cell where "cell = frontier ! nat \<lfloor>fst (random g) * of_nat (length frontier)\<rfloor>"
    have "cell \<in> set frontier"
      using True random_index_range [of "length frontier" g]
      by (simp add: cell_def Set_size_def)
    then have "region_inv width height (Set_add cell cells)
           (addNeighborsToFrontier (fst cell) (snd cell) width height (Set_add cell cells)
              (Set_delete cell frontier))"
      using "1.prems" by (rule region_inv_step [rotated])
    moreover have "grow width height targetCells cells frontier g =
        grow width height targetCells (Set_add cell cells)
          (addNeighborsToFrontier (fst cell) (snd cell) width height (Set_add cell cells)
              (Set_delete cell frontier)) (snd (random g))"
      using True by (subst grow.simps) (simp add: Let_def cell_def)
    ultimately show ?thesis
      using "1.IH" [OF True refl refl refl refl refl refl refl]
      by (simp add: cell_def)
  qed
qed

lemma region_inv_start:
  assumes "1 \<le> width" "1 \<le> height"
  shows "region_inv width height (Set_add (width div 2, height div 2) [])
           (addNeighborsToFrontier (width div 2) (height div 2) width height
              (Set_add (width div 2, height div 2) []) [])"
proof -
  have b: "in_bounds width height (width div 2, height div 2)"
    using assms by (auto simp: in_bounds_def)
  have "in_bounds width height f \<and> adjacent4 (width div 2, height div 2) f"
    if "f \<in> set (addNeighborsToFrontier (width div 2) (height div 2) width height
              (Set_add (width div 2, height div 2) []) [])" for f
    using addNeighborsToFrontier_set [OF that] by simp
  then show ?thesis
    using b by (auto simp: region_inv_def connected_by_singleton Set_add_def Set_has_def)
qed

lemma generateIRRegion_inv:
  assumes "1 \<le> width" "1 \<le> height"
  shows "region_inv width height (rg_cells (fst (generateIRRegion width height prng fillRatio)))
           (fst (snd (grow width height \<lfloor>of_int width * of_int height * fillRatio\<rfloor>
              (Set_add (width div 2, height div 2) [])
              (addNeighborsToFrontier (width div 2) (height div 2) width height
                 (Set_add (width div 2, height div 2) []) []) prng)))"
  using grow_inv [OF region_inv_start [OF assms]]
  by (simp add: generateIRRegion_def Let_def split_beta)

text \<open>
  C6.  For a width and a height of at least 1, any fill ratio and any generator, the cells
  that \<open>generateIRRegion\<close> returns are not empty, lie in the rectangle of that width and
  height, and form one 4-connected component.
\<close>

theorem generateIRRegion_connected:
  assumes "1 \<le> width" "1 \<le> height"
  shows "rg_cells (fst (generateIRRegion width height prng fillRatio)) \<noteq> []
    \<and> (\<forall>c \<in> set (rg_cells (fst (generateIRRegion width height prng fillRatio))).
          0 \<le> fst c \<and> fst c < width \<and> 0 \<le> snd c \<and> snd c < height)
    \<and> connected_by adjacent4 (set (rg_cells (fst (generateIRRegion width height prng fillRatio))))"
  using generateIRRegion_inv [OF assms, of prng fillRatio]
  by (simp add: region_inv_def in_bounds_def)

theorem generateIRRegion_connected_witness:
  "(1::int) \<le> 3 \<and> (1::int) \<le> 2
    \<and> rg_cells (fst (generateIRRegion 3 2 (PRNG_new (charCodes ''abc'')) (7 / 10))) \<noteq> []
    \<and> list_all (\<lambda>c. 0 \<le> fst c \<and> fst c < 3 \<and> 0 \<le> snd c \<and> snd c < 2)
          (rg_cells (fst (generateIRRegion 3 2 (PRNG_new (charCodes ''abc'')) (7 / 10))))
    \<and> connected_by adjacent4
         (set (rg_cells (fst (generateIRRegion 3 2 (PRNG_new (charCodes ''abc'')) (7 / 10)))))"
proof -
  have w: "(1::int) \<le> 3" and h: "(1::int) \<le> 2" by simp_all
  show ?thesis
    using w h generateIRRegion_connected [OF w h, of "PRNG_new (charCodes ''abc'')" "7 / 10"]
    unfolding list_all_iff by blast
qed

section \<open>Hamiltonian paths (lib/hamiltonian.ts)\<close>

record HamiltonianPath =
  hp_path :: "cell list"
  hp_success :: bool

fun Map_get_or :: "('k \<times> 'v) list \<Rightarrow> 'k \<Rightarrow> 'v \<Rightarrow> 'v" where
  "Map_get_or [] k d = d"
| "Map_get_or ((k', v) # m) k d = (if k = k' then v else Map_get_or m k d)"

text \<open>The cells of the region, each moved by the lower bounds of the region.\<close>

definition local_cells :: "IRRegion \<Rightarrow> cell list" where
  "local_cells region =
     map (\<lambda>c. (fst c - rg_minX region, snd c - rg_minY region)) (rg_cells region)"

text \<open>
  The cells that \<open>region.cells.has\<close> accepts among the four neighbours of a cell, in the
  order of the directions \<open>[0, 1], [1, 0], [0, -1], [-1, 0]\<close>.
\<close>

definition region_neighbors :: "IRRegion \<Rightarrow> cell \<Rightarrow> cell list" where
  "region_neighbors region c =
     filter (\<lambda>n. Set_has (rg_cells region) (fst n + rg_minX region, snd n + rg_minY region))
       (map (\<lambda>d. (fst c + fst d, snd c + snd d)) [(0, 1), (1, 0), (0, -1), (-1, 0)])"

definition build_adjacency :: "IRRegion \<Rightarrow> cell list \<Rightarrow> (cell \<times> cell list) list" where
  "build_adjacency region cells =
     fold (\<lambda>c adjacency. Map_set c (region_neighbors region c) adjacency) cells []"

definition build_strips :: "cell list \<Rightarrow> (int \<times> cell list) list" where
  "build_strips cells =
     fold (\<lambda>c strips. Map_set (snd c) (Map_get_or strips (snd c) [] @ [c]) strips) cells []"

text \<open>
  \<open>sort\<close> with the comparator \<open>(a, b) => a[0] - b[0]\<close> is a stable sort on the first
  component, as \<open>sort_key fst\<close> is.
\<close>

definition sortedStrips :: "cell list \<Rightarrow> cell list list" where
  "sortedStrips cells = map (\<lambda>e. sort_key fst (snd e)) (sort_key fst (build_strips cells))"

text \<open>
  The loop that stitches the strips; its state is \<open>path\<close> and \<open>reverseNext\<close>.  Both
  branches on \<open>canConnect\<close> flip \<open>reverseNext\<close>, as in the source.
\<close>

fun stitch :: "(cell \<times> cell list) list \<Rightarrow> cell list list \<Rightarrow> cell list \<Rightarrow> bool \<Rightarrow> cell list" where
  "stitch adjacency [] path reverseNext = path"
| "stitch adjacency (strip # rest) path reverseNext =
     (let path1 = path @ (if reverseNext then rev strip else strip)
      in case rest of
           [] \<Rightarrow> path1
         | nextStrip # _ \<Rightarrow>
             (let lastCell = last path1;
                  neighbors = Map_get_or adjacency lastCell [];
                  canConnect =
                    list_ex (\<lambda>nextCell.
                      list_ex (\<lambda>n. fst n = fst nextCell \<and> snd n = snd nextCell) neighbors)
                      nextStrip;
                  reverseNext1 = (if \<not> canConnect then \<not> reverseNext else \<not> reverseNext)
              in stitch adjacency rest path1 reverseNext1))"

text \<open>The check \<open>dist !== 1\<close> on every consecutive pair of the path.\<close>

fun steps_ok :: "cell list \<Rightarrow> bool" where
  "steps_ok (c1 # c2 # rest) =
     (\<bar>fst c2 - fst c1\<bar> + \<bar>snd c2 - snd c1\<bar> = 1 \<and> steps_ok (c2 # rest))"
| "steps_ok _ = True"

definition stripAndStitch :: "IRRegion \<Rightarrow> PRNG \<Rightarrow> HamiltonianPath" where
  "stripAndStitch region prng =
     (let cells = local_cells region
      in if length cells = 0 then \<lparr>hp_path = [], hp_success = False\<rparr>
         else
           (let adjacency = build_adjacency region cells;
                path = stitch adjacency (sortedStrips cells) [] False
            in if length path \<noteq> length cells then \<lparr>hp_path = [], hp_success = False\<rparr>
               else if \<not> steps_ok path then \<lparr>hp_path = [], hp_success = False\<rparr>
               else \<lparr>hp_path = path, hp_success = True\<rparr>))"

text \<open>
  The Fisher-Yates loop that \<open>dfsHamiltonianPath\<close> and \<open>dfs\<close> write out, with
  \<open>j = Math.floor(prng.random() * (i + 1))\<close>.
\<close>

fun fisher_yates :: "nat \<Rightarrow> 'a list \<Rightarrow> PRNG \<Rightarrow> 'a list \<times> PRNG" where
  "fisher_yates 0 xs g = (xs, g)"
| "fisher_yates (Suc n) xs g =
     (let rg = random g;
          j = \<lfloor>fst rg * of_int (int (Suc n) + 1)\<rfloor>
      in fisher_yates n (swap xs (Suc n) (nat j)) (snd rg))"

text \<open>
  The loop \<open>for (const neighbor of neighbors) if (dfs(neighbor, ...)) return true\<close>,
  followed by the backtracking step.  A call of \<open>dfs\<close> that fails has removed from
  \<open>visited\<close> and \<open>path\<close> what it added, so the loop goes on with the set and the path
  it started with, and only the state \<open>'s\<close> has moved (the generator, and in the copy
  of lib/worker-factory.ts the call counter as well); when all neighbours fail, the
  result is the path as it was before the current cell was pushed.
\<close>

fun try_each ::
    "(cell \<Rightarrow> 's \<Rightarrow> bool \<times> cell list \<times> 's) \<Rightarrow> cell list \<Rightarrow> cell list \<Rightarrow> 's
       \<Rightarrow> bool \<times> cell list \<times> 's" where
  "try_each f [] path g = (False, path, g)"
| "try_each f (n # ns) path g =
     (let r = f n g
      in if fst r then r else try_each f ns path (snd (snd r)))"

lemma try_each_cong [fundef_cong]:
  assumes "ns = ns'" "path = path'" "g = g'"
    and "\<And>n g. n \<in> set ns' \<Longrightarrow> f n g = f' n g"
  shows "try_each f ns path g = try_each f' ns' path' g'"
  using assms(4) unfolding assms(1-3)
  by (induction ns' arbitrary: g') (simp_all add: Let_def)

lemma fisher_yates_eq: "fisher_yates n xs g = shuffle_loop n xs g"
  by (induction n arbitrary: xs g) (simp_all add: randInt_def Let_def split_beta add.commute)

lemma fisher_yates_set: "set (fst (fisher_yates (length xs - 1) xs g)) = set xs"
  using shuffle_perm [of xs g] unfolding shuffle_def fisher_yates_eq
  by (metis set_mset_mset)

lemma region_neighbors_local:
  "n \<in> set (region_neighbors region c) \<Longrightarrow> n \<in> set (local_cells region)"
proof -
  assume "n \<in> set (region_neighbors region c)"
  then have "(fst n + rg_minX region, snd n + rg_minY region) \<in> set (rg_cells region)"
    unfolding region_neighbors_def Set_has_def set_filter by blast
  then have "(\<lambda>c. (fst c - rg_minX region, snd c - rg_minY region))
      (fst n + rg_minX region, snd n + rg_minY region) \<in> set (local_cells region)"
    unfolding local_cells_def set_map by (rule imageI)
  then show ?thesis by simp
qed

function dfs ::
    "cell \<Rightarrow> cell list \<Rightarrow> cell list \<Rightarrow> cell list \<Rightarrow> IRRegion \<Rightarrow> PRNG \<Rightarrow> bool \<times> cell list \<times> PRNG" where
  "dfs current cells visited path region prng =
     (let visited1 = Set_add current visited;
          path1 = path @ [current]
      in if length path1 = length cells then (True, path1, prng)
         else
           (let neighbors = filter (\<lambda>n. \<not> Set_has visited1 n) (region_neighbors region current);
                shuffled = fisher_yates (length neighbors - 1) neighbors prng
            in try_each (\<lambda>neighbor g. dfs neighbor cells visited1 path1 region g)
                 (fst shuffled) path (snd shuffled)))"
  by pat_completeness auto
termination
proof (relation "measure (\<lambda>(current, cells, visited, path, region, prng).
         card (set (local_cells region) - insert current (set visited)))", goal_cases)
  case 1
  then show ?case by simp
next
  case (2 current cells visited path region prng visited1 path1 neighbors shuffled n g)
  have "n \<in> set neighbors"
    using 2(6) fisher_yates_set [of neighbors prng] unfolding 2(5) by simp
  then have "n \<in> set (region_neighbors region current)" "n \<notin> set visited1"
    unfolding 2(4) by (simp_all add: Set_has_def)
  then have n: "n \<in> set (local_cells region)" "n \<notin> insert current (set visited)"
    using region_neighbors_local unfolding 2(1) by simp_all
  have "set (local_cells region) - insert n (set visited1)
          \<subset> set (local_cells region) - insert current (set visited)"
    using n unfolding 2(1) by auto
  then have "card (set (local_cells region) - insert n (set visited1))
          < card (set (local_cells region) - insert current (set visited))"
    by (simp add: psubset_card_mono)
  then show ?case by simp
qed

declare dfs.simps [simp del]


text \<open>The loop over the (at most five) start cells in \<open>dfsHamiltonianPath\<close>.\<close>

fun try_starts :: "cell list \<Rightarrow> cell list \<Rightarrow> IRRegion \<Rightarrow> PRNG \<Rightarrow> HamiltonianPath \<times> PRNG" where
  "try_starts [] cells region g = (\<lparr>hp_path = [], hp_success = False\<rparr>, g)"
| "try_starts (start # rest) cells region g =
     (let r = dfs start cells [] [] region g
      in if fst r then (\<lparr>hp_path = fst (snd r), hp_success = True\<rparr>, snd (snd r))
         else try_starts rest cells region (snd (snd r)))"

definition dfsHamiltonianPath :: "IRRegion \<Rightarrow> PRNG \<Rightarrow> HamiltonianPath \<times> PRNG" where
  "dfsHamiltonianPath region prng =
     (let cells = local_cells region
      in if length cells = 0 then (\<lparr>hp_path = [], hp_success = False\<rparr>, prng)
         else
           (let shuffled = fisher_yates (length cells - 1) cells prng;
                shuffledCells = fst shuffled
            in try_starts (take (min 5 (length shuffledCells)) shuffledCells) cells region
                 (snd shuffled)))"

text \<open>The attempts of strip-and-stitch; the first argument counts those that remain.\<close>

fun strip_attempts :: "nat \<Rightarrow> IRRegion \<Rightarrow> PRNG \<Rightarrow> HamiltonianPath option" where
  "strip_attempts 0 region prng = None"
| "strip_attempts (Suc n) region prng =
     (let result = stripAndStitch region prng
      in if hp_success result then Some result else strip_attempts n region prng)"

definition generateHamiltonianPath :: "IRRegion \<Rightarrow> PRNG \<Rightarrow> nat \<Rightarrow> HamiltonianPath \<times> PRNG" where
  "generateHamiltonianPath region prng maxAttempts =
     (case strip_attempts maxAttempts region prng of
        Some result \<Rightarrow> (result, prng)
      | None \<Rightarrow> dfsHamiltonianPath region prng)"

text \<open>Directions: 0 is up, 1 right, 2 down, 3 left.\<close>

fun pathToSolution :: "cell list \<Rightarrow> int list" where
  "pathToSolution (c1 # c2 # rest) =
     (if fst c2 > fst c1 then 1
      else if fst c2 < fst c1 then 3
      else if snd c2 > snd c1 then 2
      else 0) # pathToSolution (c2 # rest)"
| "pathToSolution _ = []"

section \<open>Level generation (workers/gen.worker.ts)\<close>

datatype error = RangeError

text \<open>
  \<open>new Uint8Array(n)\<close> throws a \<open>RangeError\<close> for a negative length; a write outside
  the array is ignored.
\<close>

definition Uint8Array_new :: "int \<Rightarrow> error + int list" where
  "Uint8Array_new n = (if n < 0 then Inl RangeError else Inr (replicate (nat n) 0))"

definition Uint8Array_set :: "int list \<Rightarrow> int \<Rightarrow> int \<Rightarrow> int list" where
  "Uint8Array_set arr i v = (if 0 \<le> i \<and> i < int (length arr) then arr[nat i := v] else arr)"

text \<open>
  \<open>x || d\<close>: the default replaces a field that is missing, \<open>NaN\<close>, 0 or the empty
  string.
\<close>

definition num_or :: "'a::zero number option \<Rightarrow> 'a \<Rightarrow> 'a" where
  "num_or x d = (case x of Some (Num n) \<Rightarrow> if n = 0 then d else n | _ \<Rightarrow> d)"

definition str_or :: "jsstring option \<Rightarrow> jsstring \<Rightarrow> jsstring" where
  "str_or x d = (case x of Some s \<Rightarrow> if s = [] then d else s | None \<Rightarrow> d)"

text \<open>\<open>array.slice(0, end)\<close>; a negative \<open>end\<close> counts from the end of the array.\<close>

definition slice0 :: "'a list \<Rightarrow> int \<Rightarrow> 'a list" where
  "slice0 xs e = (if e < 0 then take (nat (int (length xs) + e)) xs else take (nat e) xs)"

definition open_neighbor_count :: "cell list \<Rightarrow> cell \<Rightarrow> nat" where
  "open_neighbor_count cells c =
     length (filter (\<lambda>d. Set_has cells (fst c + fst d, snd c + snd d))
       [(0, 1), (1, 0), (0, -1), (-1, 0)])"

definition is_corridor :: "cell list \<Rightarrow> cell \<Rightarrow> bool" where
  "is_corridor cells c =
     (let hasUp = Set_has cells (fst c, snd c - 1);
          hasDown = Set_has cells (fst c, snd c + 1);
          hasLeft = Set_has cells (fst c - 1, snd c);
          hasRight = Set_has cells (fst c + 1, snd c)
      in (hasUp \<and> hasDown \<and> \<not> hasLeft \<and> \<not> hasRight)
         \<or> (\<not> hasUp \<and> \<not> hasDown \<and> hasLeft \<and> hasRight))"

fun count_turns :: "cell list \<Rightarrow> nat" where
  "count_turns (c1 # c2 # c3 # rest) =
     (if fst c2 - fst c1 \<noteq> fst c3 - fst c2 \<or> snd c2 - snd c1 \<noteq> snd c3 - snd c2 then 1 else 0)
       + count_turns (c2 # c3 # rest)"
| "count_turns _ = 0"

text \<open>
  The quotients are those of \<open>rat\<close>; every call of the generator has a region with at
  least one cell and a rectangle with \<open>w * h\<close> other than 0.
\<close>

definition calculateMetrics :: "IRRegion \<Rightarrow> cell list \<Rightarrow> int \<Rightarrow> int \<Rightarrow> DifficultyMetrics" where
  "calculateMetrics region path w h =
     (let cells = rg_cells region;
          sz = int (Set_size cells);
          totalBranches = sum_list (map (\<lambda>c. int (open_neighbor_count cells c)) cells);
          forcedMoves = int (length (filter (\<lambda>c. open_neighbor_count cells c = 1) cells));
          corridors = int (length (filter (is_corridor cells) cells));
          turns = int (count_turns path)
      in \<lparr>dm_size = sz,
          dm_holeDensity = 1 - of_int sz / of_int (w * h),
          dm_branchingFactor = of_int totalBranches / of_int sz,
          dm_forcedMoveRatio = of_int forcedMoves / of_int sz,
          dm_corridorsPercent = of_int corridors / of_int sz,
          dm_turnRate =
            (if length path > 2 then of_int turns / of_int (int (length path) - 2) else 0)\<rparr>)"

text \<open>The directions drawn for the solution of a simple level, one draw per cell.\<close>

fun random_directions :: "'a list \<Rightarrow> PRNG \<Rightarrow> int list \<times> PRNG" where
  "random_directions [] g = ([], g)"
| "random_directions (x # xs) g =
     (let rg = random g;
          rest = random_directions xs (snd rg)
      in (\<lfloor>fst rg * 4\<rfloor> # fst rest, snd rest))"

definition generateSimpleLevel :: "GameParams \<Rightarrow> PRNG \<Rightarrow> error + Level" where
  "generateSimpleLevel params prng =
     (let w = num_or (p_w params) 10;
          h = num_or (p_h params) 10;
          holeDensity = num_or (p_hd params) (1 / 10);
          mode = num_or (p_m params) 1;
          seed = str_or (p_seed params) (charCodes ''default'');
          totalCells = w * h;
          targetOpenCells = \<lfloor>of_int totalCells * (1 - holeDensity)\<rfloor>
      in case Uint8Array_new totalCells of
           Inl e \<Rightarrow> Inl e
         | Inr open0 \<Rightarrow>
             (let openIndices = map int [0..<nat totalCells];
                  sh = shuffle openIndices prng;
                  shuffled = fst sh;
                  opn = fold (\<lambda>i opn. if i < length shuffled
                                       then Uint8Array_set opn (shuffled ! i) 1 else opn)
                          [0..<nat targetOpenCells] open0;
                  startIndex = shuffled ! 0;
                  starts = [(0, startIndex)];
                  solution = fst (random_directions (slice0 shuffled targetOpenCells) (snd sh))
              in Inr \<lparr>lv_v = 1, lv_mode = mode, lv_w = w, lv_h = h, lv_open = opn,
                      lv_starts = starts, lv_pairs = None, lv_solution = solution,
                      lv_metrics =
                        \<lparr>dm_size = targetOpenCells, dm_holeDensity = holeDensity,
                         dm_branchingFactor = 2, dm_forcedMoveRatio = 3 / 10,
                         dm_corridorsPercent = 2 / 10, dm_turnRate = 4 / 10\<rparr>,
                      lv_seed = seed, lv_params = params\<rparr>))"

definition generateLevel :: "GameParams \<Rightarrow> error + Level" where
  "generateLevel params =
     (let seed = str_or (p_seed params) (charCodes ''default'');
          prng = PRNG_new seed;
          w = num_or (p_w params) 10;
          h = num_or (p_h params) 10;
          holeDensity = num_or (p_hd params) (1 / 10);
          mode = num_or (p_m params) 1
      in if mode = 1 then
           (let fillRatio = 1 - holeDensity;
                rg = generateIRRegion w h prng fillRatio;
                normalized = normalizeRegion (fst rg);
                hp = generateHamiltonianPath normalized (snd rg) 3;
                hamPath = fst hp
            in if \<not> hp_success hamPath \<or> length (hp_path hamPath) = 0
               then generateSimpleLevel params (snd hp)
               else
                 (case Uint8Array_new (w * h) of
                    Inl e \<Rightarrow> Inl e
                  | Inr open0 \<Rightarrow>
                      (let opn = fold (\<lambda>c opn. Uint8Array_set opn (snd c * w + fst c) 1)
                                   (rg_cells normalized) open0;
                           start = hp_path hamPath ! 0;
                           startIndex = snd start * w + fst start;
                           starts = [(0, startIndex)];
                           solution = pathToSolution (hp_path hamPath);
                           metrics = calculateMetrics normalized (hp_path hamPath) w h
                       in Inr \<lparr>lv_v = 1, lv_mode = mode, lv_w = w, lv_h = h, lv_open = opn,
                               lv_starts = starts, lv_pairs = None, lv_solution = solution,
                               lv_metrics = metrics, lv_seed = seed, lv_params = params\<rparr>)))
         else generateSimpleLevel params prng)"

section \<open>A successful construction is a Hamiltonian path\<close>

lemma Map_set_get_mset:
  "mset (concat (map snd (Map_set k (Map_get_or m k [] @ [c]) m)))
     = mset (concat (map snd m)) + {#c#}"
  by (induction m) auto

lemma build_strips_fold_mset:
  "mset (concat (map snd
      (fold (\<lambda>c strips. Map_set (snd c) (Map_get_or strips (snd c) [] @ [c]) strips) cells m)))
     = mset (concat (map snd m)) + mset cells"
  by (induction cells arbitrary: m) (simp_all add: Map_set_get_mset)

lemma mset_concat_map_perm:
  assumes "mset xs = mset ys"
  shows "mset (concat (map f xs)) = mset (concat (map f ys))"
proof -
  have "mset (concat (map f zs)) = sum_mset (image_mset (\<lambda>x. mset (f x)) (mset zs))" for zs
    by (induction zs) simp_all
  then show ?thesis using assms by simp
qed

lemma mset_concat_map_sort: "mset (concat (map (\<lambda>e. sort_key k (g e)) xs)) = mset (concat (map g xs))"
  by (induction xs) simp_all

lemma sortedStrips_mset: "mset (concat (sortedStrips cells)) = mset cells"
proof -
  have "mset (concat (sortedStrips cells)) = mset (concat (map snd (sort_key fst (build_strips cells))))"
    unfolding sortedStrips_def by (rule mset_concat_map_sort)
  also have "\<dots> = mset (concat (map snd (build_strips cells)))"
    by (rule mset_concat_map_perm) simp
  also have "\<dots> = mset cells"
    using build_strips_fold_mset [of cells "[]"] by (simp add: build_strips_def)
  finally show ?thesis .
qed

lemma stitch_mset:
  "mset (stitch adjacency strips path reverseNext) = mset path + mset (concat strips)"
proof (induction strips arbitrary: path reverseNext)
  case Nil
  then show ?case by simp
next
  case (Cons strip rest)
  show ?case
  proof (cases rest)
    case Nil
    then show ?thesis by simp
  next
    case (Cons nextStrip rest')
    then show ?thesis
      using Cons.IH by (simp add: Let_def)
  qed
qed

lemma stripAndStitch_success:
  assumes "hp_success (stripAndStitch region prng)"
  shows "mset (hp_path (stripAndStitch region prng)) = mset (local_cells region)
    \<and> steps_ok (hp_path (stripAndStitch region prng))"
proof -
  let ?path = "stitch (build_adjacency region (local_cells region))
      (sortedStrips (local_cells region)) [] False"
  have "hp_path (stripAndStitch region prng) = ?path \<and> steps_ok ?path"
    using assms by (simp add: stripAndStitch_def Let_def split: if_splits)
  then show ?thesis
    by (simp add: stitch_mset sortedStrips_mset)
qed

lemma strip_attempts_result:
  "strip_attempts n region prng = Some result \<Longrightarrow>
     result = stripAndStitch region prng \<and> hp_success result"
  by (induction n) (auto simp: Let_def split: if_splits)


lemma steps_ok_snoc:
  "steps_ok (xs @ [c, d]) \<longleftrightarrow> steps_ok (xs @ [c]) \<and> \<bar>fst d - fst c\<bar> + \<bar>snd d - snd c\<bar> = 1"
  by (induction xs rule: steps_ok.induct) auto

lemma region_neighbors_step:
  assumes "n \<in> set (region_neighbors region c)"
  shows "\<bar>fst n - fst c\<bar> + \<bar>snd n - snd c\<bar> = 1"
proof -
  have "n \<in> set (map (\<lambda>d. (fst c + fst d, snd c + snd d)) [(0, 1), (1, 0), (0, -1), (-1, 0)])"
    using assms unfolding region_neighbors_def set_filter by blast
  then show ?thesis by auto
qed

lemma try_each_success:
  "fst (try_each f ns path g) \<Longrightarrow>
     \<exists>n\<in>set ns. \<exists>g1. try_each f ns path g = f n g1 \<and> fst (f n g1)"
proof (induction ns arbitrary: g)
  case Nil
  then show ?case by simp
next
  case (Cons n ns)
  show ?case
  proof (cases "fst (f n g)")
    case True
    then show ?thesis by (auto simp: Let_def)
  next
    case False
    then have "try_each f (n # ns) path g = try_each f ns path (snd (snd (f n g)))"
      by (simp add: Let_def)
    then show ?thesis using Cons by (metis list.set_intros(2))
  qed
qed

lemma try_each_failure:
  "\<not> fst (try_each f ns path g) \<Longrightarrow> fst (snd (try_each f ns path g)) = path"
  by (induction ns arbitrary: g) (auto simp: Let_def split: if_splits)

lemma dfs_success:
  "fst (dfs current cells visited path region prng) \<Longrightarrow>
   distinct path \<Longrightarrow> set visited = set path \<Longrightarrow> set path \<subseteq> set (local_cells region) \<Longrightarrow>
   current \<in> set (local_cells region) \<Longrightarrow> current \<notin> set path \<Longrightarrow>
   steps_ok (path @ [current]) \<Longrightarrow>
   distinct (fst (snd (dfs current cells visited path region prng)))
   \<and> set (fst (snd (dfs current cells visited path region prng))) \<subseteq> set (local_cells region)
   \<and> steps_ok (fst (snd (dfs current cells visited path region prng)))
   \<and> length (fst (snd (dfs current cells visited path region prng))) = length cells"
proof (induction current cells visited path region prng rule: dfs.induct)
  case (1 current cells visited path region prng)
  define visited1 where "visited1 = Set_add current visited"
  define path1 where "path1 = path @ [current]"
  define neighbors where
    "neighbors = filter (\<lambda>n. \<not> Set_has visited1 n) (region_neighbors region current)"
  define shuffled where "shuffled = fisher_yates (length neighbors - 1) neighbors prng"
  show ?case
  proof (cases "length path1 = length cells")
    case True
    then have "dfs current cells visited path region prng = (True, path1, prng)"
      by (subst dfs.simps) (simp add: Let_def path1_def)
    then show ?thesis
      using 1(3-8) True by (simp add: path1_def)
  next
    case False
    have unfold: "dfs current cells visited path region prng =
        try_each (\<lambda>neighbor g. dfs neighbor cells visited1 path1 region g)
          (fst shuffled) path (snd shuffled)"
      using False
      by (subst dfs.simps) (simp add: Let_def path1_def visited1_def neighbors_def shuffled_def)
    then obtain n g1 where n: "n \<in> set (fst shuffled)"
      and res: "dfs current cells visited path region prng = dfs n cells visited1 path1 region g1"
      and ok: "fst (dfs n cells visited1 path1 region g1)"
      using try_each_success [of "\<lambda>neighbor g. dfs neighbor cells visited1 path1 region g"
          "fst shuffled" path "snd shuffled"] "1.prems"(1)
      by auto
    have "n \<in> set neighbors"
      using n fisher_yates_set [of neighbors prng] by (simp add: shuffled_def)
    then have nn: "n \<in> set (region_neighbors region current)" and nv: "n \<notin> set visited1"
      by (simp_all add: neighbors_def Set_has_def)
    have v1: "set visited1 = set path1"
      using "1.prems"(3) by (simp add: visited1_def path1_def)
    have "distinct path1" "set path1 \<subseteq> set (local_cells region)"
      using "1.prems" by (simp_all add: path1_def)
    moreover have "n \<in> set (local_cells region)"
      using nn by (rule region_neighbors_local)
    moreover have "n \<notin> set path1"
      using nv v1 by simp
    moreover have "steps_ok (path1 @ [n])"
      using "1.prems"(7) region_neighbors_step [OF nn] by (simp add: path1_def steps_ok_snoc)
    ultimately show ?thesis
      using "1.IH" [OF visited1_def path1_def False neighbors_def shuffled_def n ok _ v1]
      unfolding res by blast
  qed
qed

lemma try_starts_success:
  assumes "hp_success (fst (try_starts starts cells region g))"
    and "set starts \<subseteq> set (local_cells region)"
  shows "distinct (hp_path (fst (try_starts starts cells region g)))
   \<and> set (hp_path (fst (try_starts starts cells region g))) \<subseteq> set (local_cells region)
   \<and> steps_ok (hp_path (fst (try_starts starts cells region g)))
   \<and> length (hp_path (fst (try_starts starts cells region g))) = length cells"
  using assms
proof (induction starts arbitrary: g)
  case Nil
  then show ?case by simp
next
  case (Cons start rest)
  show ?case
  proof (cases "fst (dfs start cells [] [] region g)")
    case True
    then show ?thesis
      using dfs_success [of start cells "[]" "[]" region g] Cons.prems(2)
      by (simp add: Let_def)
  next
    case False
    then show ?thesis
      using Cons by (simp add: Let_def)
  qed
qed

lemma dfsHamiltonianPath_success:
  assumes "hp_success (fst (dfsHamiltonianPath region prng))"
  shows "distinct (hp_path (fst (dfsHamiltonianPath region prng)))
   \<and> set (hp_path (fst (dfsHamiltonianPath region prng))) \<subseteq> set (local_cells region)
   \<and> steps_ok (hp_path (fst (dfsHamiltonianPath region prng)))
   \<and> length (hp_path (fst (dfsHamiltonianPath region prng))) = length (local_cells region)"
proof -
  let ?cells = "local_cells region"
  let ?sh = "fisher_yates (length ?cells - 1) ?cells prng"
  have ne: "length ?cells \<noteq> 0"
    using assms by (auto simp: dfsHamiltonianPath_def)
  then have eq: "dfsHamiltonianPath region prng =
      try_starts (take (min 5 (length (fst ?sh))) (fst ?sh)) ?cells region (snd ?sh)"
    by (simp add: dfsHamiltonianPath_def Let_def)
  have "set (take (min 5 (length (fst ?sh))) (fst ?sh)) \<subseteq> set ?cells"
    using fisher_yates_set [of ?cells prng] set_take_subset by fastforce
  then show ?thesis
    using assms unfolding eq by (rule try_starts_success [rotated])
qed

text \<open>
  When \<open>generateHamiltonianPath\<close> succeeds on a region without repeated cells, its
  path visits every cell of the region exactly once, in steps between 4-adjacent cells.
\<close>

lemma generateHamiltonianPath_success:
  assumes ok: "hp_success (fst (generateHamiltonianPath region prng maxAttempts))"
    and d: "distinct (local_cells region)"
  shows "distinct (hp_path (fst (generateHamiltonianPath region prng maxAttempts)))
   \<and> set (hp_path (fst (generateHamiltonianPath region prng maxAttempts))) = set (local_cells region)
   \<and> steps_ok (hp_path (fst (generateHamiltonianPath region prng maxAttempts)))"
proof (cases "strip_attempts maxAttempts region prng")
  case None
  then have eq: "generateHamiltonianPath region prng maxAttempts = dfsHamiltonianPath region prng"
    by (simp add: generateHamiltonianPath_def)
  let ?p = "hp_path (fst (dfsHamiltonianPath region prng))"
  have p: "distinct ?p" "set ?p \<subseteq> set (local_cells region)" "steps_ok ?p"
    "length ?p = length (local_cells region)"
    using dfsHamiltonianPath_success [of region prng] ok unfolding eq by simp_all
  have "card (set ?p) = card (set (local_cells region))"
    using p(1,4) d by (simp add: distinct_card)
  then have "set ?p = set (local_cells region)"
    using p(2) by (simp add: card_subset_eq)
  then show ?thesis using p unfolding eq by simp
next
  case (Some result)
  then have eq: "fst (generateHamiltonianPath region prng maxAttempts) = stripAndStitch region prng"
    and s: "hp_success (stripAndStitch region prng)"
    using strip_attempts_result [OF Some] by (auto simp: generateHamiltonianPath_def)
  have m: "mset (hp_path (stripAndStitch region prng)) = mset (local_cells region)"
    and st: "steps_ok (hp_path (stripAndStitch region prng))"
    using stripAndStitch_success [OF s] by simp_all
  have "distinct (hp_path (stripAndStitch region prng))"
    using m d by (metis mset_eq_imp_distinct_iff)
  moreover have "set (hp_path (stripAndStitch region prng)) = set (local_cells region)"
    using m by (metis set_mset_mset)
  ultimately show ?thesis using st unfolding eq by simp
qed

section \<open>The level of mode 1\<close>

text \<open>The index \<open>y * w + x\<close> of a cell.\<close>

definition cell_index :: "int \<Rightarrow> cell \<Rightarrow> int" where
  "cell_index w c = snd c * w + fst c"

text \<open>
  The cells that a sequence of directions visits from a start cell: 0 is up, 1 right,
  2 down, 3 left, on cell indices of a grid of width \<open>w\<close>.
\<close>

fun walk :: "int \<Rightarrow> int \<Rightarrow> int list \<Rightarrow> int list" where
  "walk w i [] = [i]"
| "walk w i (d # ds) =
     i # walk w (if d = 0 then i - w else if d = 1 then i + 1 else if d = 2 then i + w else i - 1) ds"

text \<open>The path that \<open>generateLevel\<close> computes in mode 1, before it assembles the level.\<close>

definition mode1_hamPath :: "GameParams \<Rightarrow> HamiltonianPath" where
  "mode1_hamPath params =
     (let prng = PRNG_new (str_or (p_seed params) (charCodes ''default''));
          w = num_or (p_w params) 10;
          h = num_or (p_h params) 10;
          holeDensity = num_or (p_hd params) (1 / 10);
          rg = generateIRRegion w h prng (1 - holeDensity)
      in fst (generateHamiltonianPath (normalizeRegion (fst rg)) (snd rg) 3))"

lemma region_bounds_fold:
  "fold (\<lambda>(x, y) (minX, maxX, minY, maxY). (min minX x, max maxX x, min minY y, max maxY y))
      (cells :: cell list) (a, b, c, d) = (a', b', c', d') \<Longrightarrow>
   (\<forall>p\<in>set cells. a' \<le> fst p \<and> c' \<le> snd p)
   \<and> a' \<le> a \<and> c' \<le> c
   \<and> (lo \<le> a \<and> (\<forall>p\<in>set cells. lo \<le> fst p) \<longrightarrow> lo \<le> a')
   \<and> (lo' \<le> c \<and> (\<forall>p\<in>set cells. lo' \<le> snd p) \<longrightarrow> lo' \<le> c')"
proof (induction cells arbitrary: a b c d)
  case Nil
  then show ?case by simp
next
  case (Cons p cells)
  obtain x y where p: "p = (x, y)" by (cases p)
  from Cons.prems have "fold (\<lambda>(x, y) (minX, maxX, minY, maxY). (min minX x, max maxX x, min minY y, max maxY y))
      cells (min a x, max b x, min c y, max d y) = (a', b', c', d')"
    by (simp add: p)
  from Cons.IH [OF this] show ?case
    by (auto simp: p)
qed

lemma fold_Set_add_map:
  assumes "inj f" "distinct xs" "f ` set xs \<inter> set acc = {}"
  shows "fold (\<lambda>c normalized. Set_add (f c) normalized) xs acc = acc @ map f xs"
  using assms
proof (induction xs arbitrary: acc)
  case Nil
  then show ?case by simp
next
  case (Cons x xs)
  have "f x \<notin> set acc" using Cons.prems(3) by auto
  then have a: "Set_add (f x) acc = acc @ [f x]" by (simp add: Set_add_def Set_has_def)
  have "f ` set xs \<inter> set (acc @ [f x]) = {}"
    using Cons.prems by (auto dest: injD)
  then show ?case
    using Cons.IH [of "acc @ [f x]"] Cons.prems a by simp
qed

lemma normalizeRegion_cells:
  assumes "distinct (rg_cells region)"
  shows "rg_cells (normalizeRegion region)
    = map (\<lambda>c. (fst c - rg_minX region, snd c - rg_minY region)) (rg_cells region)"
proof -
  have "inj (\<lambda>c::cell. (fst c - rg_minX region, snd c - rg_minY region))"
    by (auto simp: inj_def prod_eq_iff)
  from fold_Set_add_map [OF this assms, of "[]"]
  show ?thesis
    by (simp add: normalizeRegion_def case_prod_unfold)
qed

lemma local_cells_normalizeRegion:
  "local_cells (normalizeRegion region) = rg_cells (normalizeRegion region)"
  by (simp add: local_cells_def normalizeRegion_def)

text \<open>The normalized region of a request of mode 1 with a width and height of at least 1.\<close>

lemma normalized_region:
  fixes w h :: int and prng :: PRNG and fillRatio :: rat
  defines "normalized \<equiv> normalizeRegion (fst (generateIRRegion w h prng fillRatio))"
  assumes "1 \<le> w" "1 \<le> h"
  shows "rg_cells normalized \<noteq> []" "distinct (rg_cells normalized)"
    "\<forall>c\<in>set (rg_cells normalized). in_bounds w h c"
proof -
  let ?region = "fst (generateIRRegion w h prng fillRatio)"
  have inv: "rg_cells ?region \<noteq> []" "distinct (rg_cells ?region)"
    "\<forall>c\<in>set (rg_cells ?region). in_bounds w h c"
    using generateIRRegion_inv [OF assms(2,3), of prng fillRatio] by (simp_all add: region_inv_def)
  obtain a' b' c' d' where rb: "region_bounds w h (rg_cells ?region) = (a', b', c', d')"
    by (cases "region_bounds w h (rg_cells ?region)")
  have mins: "rg_minX ?region = a'" "rg_minY ?region = c'"
    using rb by (simp_all add: generateIRRegion_def Let_def split_beta)
  have b: "(\<forall>p\<in>set (rg_cells ?region). a' \<le> fst p \<and> c' \<le> snd p) \<and> 0 \<le> a' \<and> 0 \<le> c'"
    using region_bounds_fold [OF rb [unfolded region_bounds_def], of 0 0] inv(3) assms(2,3)
    by (auto simp: in_bounds_def)
  have cells: "rg_cells normalized = map (\<lambda>c. (fst c - a', snd c - c')) (rg_cells ?region)"
    unfolding normalized_def using normalizeRegion_cells [OF inv(2)] mins by simp
  show "rg_cells normalized \<noteq> []"
    using inv(1) cells by simp
  have "inj_on (\<lambda>c::cell. (fst c - a', snd c - c')) (set (rg_cells ?region))"
    by (auto simp: inj_on_def prod_eq_iff)
  then show "distinct (rg_cells normalized)"
    using inv(2) cells by (simp add: distinct_map)
  show "\<forall>c\<in>set (rg_cells normalized). in_bounds w h c"
    using inv(3) b unfolding cells by (fastforce simp: in_bounds_def)
qed

lemma cell_index_range:
  assumes "in_bounds w h c"
  shows "0 \<le> cell_index w c" "cell_index w c < w * h"
    "cell_index w c mod w = fst c" "cell_index w c div w = snd c"
proof -
  have x: "0 \<le> fst c" "fst c < w" and y: "0 \<le> snd c" "snd c < h"
    using assms by (simp_all add: in_bounds_def)
  then have w: "0 < w" by simp
  show "0 \<le> cell_index w c"
    using x y w by (simp add: cell_index_def)
  have "snd c * w \<le> (h - 1) * w"
    using y w by (intro mult_right_mono) simp_all
  then show "cell_index w c < w * h"
    using x by (simp add: cell_index_def algebra_simps)
  show "cell_index w c mod w = fst c"
    using x by (simp add: cell_index_def)
  show "cell_index w c div w = snd c"
    using x w by (simp add: cell_index_def)
qed

lemma cell_index_inj:
  assumes "in_bounds w h c" "in_bounds w h d" "cell_index w c = cell_index w d"
  shows "c = d"
  using cell_index_range(3,4) [OF assms(1)] cell_index_range(3,4) [OF assms(2)] assms(3)
  by (simp add: prod_eq_iff)

lemma cell_index_neighbors:
  assumes "in_bounds w h c" "in_bounds w h d" "\<bar>fst d - fst c\<bar> + \<bar>snd d - snd c\<bar> = 1"
  shows "areNeighbors w (cell_index w c) (cell_index w d)"
  using cell_index_range(3,4) [OF assms(1)] cell_index_range(3,4) [OF assms(2)] assms(3)
  by (auto simp: areNeighbors_def Let_def)

lemma areNeighbors_sym: "areNeighbors w i j \<Longrightarrow> areNeighbors w j i"
  by (auto simp: areNeighbors_def Let_def)

lemma successively_cell_index:
  "steps_ok path \<Longrightarrow> \<forall>c\<in>set path. in_bounds w h c \<Longrightarrow>
     successively (areNeighbors w) (map (cell_index w) path)"
  by (induction path rule: steps_ok.induct) (auto intro: cell_index_neighbors)

lemma walk_pathToSolution:
  "steps_ok (c # rest) \<Longrightarrow>
     walk w (cell_index w c) (pathToSolution (c # rest)) = map (cell_index w) (c # rest)"
proof (induction rest arbitrary: c)
  case Nil
  then show ?case by simp
next
  case (Cons d rest)
  have step: "\<bar>fst d - fst c\<bar> + \<bar>snd d - snd c\<bar> = 1" and rest: "steps_ok (d # rest)"
    using Cons.prems by simp_all
  consider (right) "fst d = fst c + 1" "snd d = snd c"
    | (left) "fst d = fst c - 1" "snd d = snd c"
    | (down) "fst d = fst c" "snd d = snd c + 1"
    | (up) "fst d = fst c" "snd d = snd c - 1"
    using step by linarith
  then have "walk w (cell_index w c) (pathToSolution (c # d # rest))
      = cell_index w c # walk w (cell_index w d) (pathToSolution (d # rest))"
  proof cases
    case right
    then have "pathToSolution (c # d # rest) = 1 # pathToSolution (d # rest)"
      and "cell_index w d = cell_index w c + 1"
      by (simp_all add: cell_index_def)
    then show ?thesis by simp
  next
    case left
    then have "pathToSolution (c # d # rest) = 3 # pathToSolution (d # rest)"
      and "cell_index w d = cell_index w c - 1"
      by (simp_all add: cell_index_def)
    then show ?thesis by simp
  next
    case down
    then have "pathToSolution (c # d # rest) = 2 # pathToSolution (d # rest)"
      and "cell_index w d = cell_index w c + w"
      by (simp_all add: cell_index_def algebra_simps)
    then show ?thesis by simp
  next
    case up
    have "(snd c - 1) * w + fst c = snd c * w + fst c - w"
      by (simp add: algebra_simps)
    with up have "pathToSolution (c # d # rest) = 0 # pathToSolution (d # rest)"
      and "cell_index w d = cell_index w c - w"
      by (simp_all add: cell_index_def)
    then show ?thesis by simp
  qed
  then show ?case
    using Cons.IH [OF rest] by simp
qed

lemma length_pathToSolution: "length (pathToSolution path) = length path - 1"
  by (induction path rule: pathToSolution.induct) simp_all

lemma successively_connected:
  assumes "xs \<noteq> []" "successively adj xs" "\<And>x y. adj x y \<Longrightarrow> adj y x"
  shows "connected_by adj (set xs)"
  using assms(1,2)
proof (induction xs rule: induct_list012)
  case 1
  then show ?case by simp
next
  case (2 x)
  then show ?case by (simp add: connected_by_singleton)
next
  case (3 x y zs)
  then have "connected_by adj (set (y # zs))" and xy: "adj x y" by simp_all
  then have "connected_by adj (insert x (set (y # zs)))"
    using assms(3) by (intro connected_by_insert [of _ _ y]) simp_all
  then show ?case by simp
qed

lemma open_fold:
  "length (fold (\<lambda>c opn. Uint8Array_set opn (f c) 1) cells arr) = length arr
   \<and> (\<forall>i<length arr. fold (\<lambda>c opn. Uint8Array_set opn (f c) 1) cells arr ! i
         = (if int i \<in> f ` set cells then 1 else arr ! i))"
proof (induction cells arbitrary: arr)
  case Nil
  then show ?case by simp
next
  case (Cons c cells)
  have len: "length (Uint8Array_set arr (f c) 1) = length arr"
    by (simp add: Uint8Array_set_def)
  have nth: "Uint8Array_set arr (f c) 1 ! i = (if int i = f c then 1 else arr ! i)"
    if "i < length arr" for i
    using that by (auto simp: Uint8Array_set_def nth_list_update)
  show ?case
    using Cons.IH [of "Uint8Array_set arr (f c) 1"] len nth by auto
qed

lemma mode1_level:
  fixes params :: GameParams
  defines "W \<equiv> num_or (p_w params) 10" and "H \<equiv> num_or (p_h params) 10"
    and "path \<equiv> hp_path (mode1_hamPath params)"
  assumes m: "num_or (p_m params) 1 = 1" and w: "1 \<le> num_or (p_w params) 10"
    and h: "1 \<le> num_or (p_h params) 10" and ok: "hp_success (mode1_hamPath params)"
  shows "\<exists>level. generateLevel params = Inr level \<and> lv_mode level = 1 \<and> lv_w level = W
           \<and> lv_starts level = [(0, cell_index W (hd path))]
           \<and> lv_solution level = pathToSolution path
           \<and> OpenSet level = cell_index W ` set path"
    and "path \<noteq> []" and "distinct path" and "steps_ok path"
    and "\<forall>c\<in>set path. in_bounds W H c"
proof -
  define prng where "prng = PRNG_new (str_or (p_seed params) (charCodes ''default''))"
  define fillRatio where "fillRatio = 1 - num_or (p_hd params) (1 / 10)"
  define rg where "rg = generateIRRegion W H prng fillRatio"
  define normalized where "normalized = normalizeRegion (fst rg)"
  define hp where "hp = generateHamiltonianPath normalized (snd rg) 3"
  have hamPath: "mode1_hamPath params = fst hp"
    by (simp add: mode1_hamPath_def Let_def hp_def normalized_def rg_def prng_def fillRatio_def
        W_def H_def)
  have W: "1 \<le> W" and H: "1 \<le> H" using w h by (simp_all add: W_def H_def)
  have cells: "rg_cells normalized \<noteq> []" "distinct (rg_cells normalized)"
    "\<forall>c\<in>set (rg_cells normalized). in_bounds W H c"
    unfolding normalized_def rg_def using normalized_region [OF W H] by simp_all
  have lc: "local_cells normalized = rg_cells normalized"
    unfolding normalized_def by (rule local_cells_normalizeRegion)
  have p: "distinct path" "set path = set (rg_cells normalized)" "steps_ok path"
    using generateHamiltonianPath_success [of normalized "snd rg" 3] ok cells(2)
    unfolding path_def hamPath hp_def lc by simp_all
  show ne: "path \<noteq> []" using p(2) cells(1) by auto
  show "distinct path" "steps_ok path" by (rule p)+
  show inb: "\<forall>c\<in>set path. in_bounds W H c" using p(2) cells(3) by simp
  define opn where "opn = fold (\<lambda>c opn. Uint8Array_set opn (snd c * W + fst c) 1)
      (rg_cells normalized) (replicate (nat (W * H)) 0)"
  define level where "level = \<lparr>lv_v = 1, lv_mode = 1, lv_w = W, lv_h = H, lv_open = opn,
      lv_starts = [(0, snd (path ! 0) * W + fst (path ! 0))], lv_pairs = None,
      lv_solution = pathToSolution path,
      lv_metrics = calculateMetrics normalized path W H,
      lv_seed = str_or (p_seed params) (charCodes ''default''), lv_params = params\<rparr>"
  have nonneg: "\<not> W * H < 0" using W H by (simp add: mult_less_0_iff)
  have "length path \<noteq> 0" using ne by simp
  then have gen: "generateLevel params = Inr level"
    using ok m nonneg unfolding hamPath path_def
    by (simp add: generateLevel_def Let_def level_def opn_def hp_def normalized_def rg_def
        prng_def fillRatio_def W_def H_def Uint8Array_new_def path_def hamPath)
  have start: "snd (path ! 0) * W + fst (path ! 0) = cell_index W (hd path)"
    using ne by (simp add: cell_index_def hd_conv_nth)
  have opn: "length opn = nat (W * H)"
    "\<And>i. i < nat (W * H) \<Longrightarrow> opn ! i = (if int i \<in> cell_index W ` set (rg_cells normalized) then 1 else 0)"
    using open_fold [of "cell_index W" "rg_cells normalized" "replicate (nat (W * H)) 0"]
    by (simp_all add: opn_def cell_index_def)
  have "OpenSet level = cell_index W ` set (rg_cells normalized)"
  proof (intro set_eqI iffI)
    fix i assume "i \<in> OpenSet level"
    then have "0 \<le> i" "i < int (nat (W * H))" "opn ! nat i = 1"
      by (simp_all add: OpenSet_def level_def opn(1))
    then have "0 \<le> i" "nat i < nat (W * H)" "opn ! nat i = 1"
      by linarith+
    then show "i \<in> cell_index W ` set (rg_cells normalized)"
      using opn(2) [of "nat i"] by (simp split: if_splits)
  next
    fix i assume i: "i \<in> cell_index W ` set (rg_cells normalized)"
    then obtain c where c: "c \<in> set (rg_cells normalized)" "i = cell_index W c" by auto
    then have r: "0 \<le> i" "i < W * H"
      using cell_index_range(1,2) [of W H c] cells(3) by simp_all
    then have "nat i < nat (W * H)" by simp
    then have "opn ! nat i = 1" using opn(2) [of "nat i"] i r by simp
    then show "i \<in> OpenSet level"
      using r by (simp add: OpenSet_def level_def opn(1))
  qed
  then have "OpenSet level = cell_index W ` set path" using p(2) by simp
  then show "\<exists>level. generateLevel params = Inr level \<and> lv_mode level = 1 \<and> lv_w level = W
           \<and> lv_starts level = [(0, cell_index W (hd path))]
           \<and> lv_solution level = pathToSolution path
           \<and> OpenSet level = cell_index W ` set path"
    using gen start by (intro exI [of _ level]) (simp add: level_def)
qed

text \<open>The open set of a level, computed from its mask.\<close>

definition open_indices :: "int list \<Rightarrow> int list" where
  "open_indices opn = map int (filter (\<lambda>i. opn ! i = 1) [0..<length opn])"

lemma OpenSet_indices: "OpenSet level = set (open_indices (lv_open level))"
proof (intro set_eqI iffI)
  fix i assume "i \<in> OpenSet level"
  then have "i = int (nat i)" "nat i < length (lv_open level)" "lv_open level ! nat i = 1"
    by (auto simp: OpenSet_def nat_less_iff)
  then show "i \<in> set (open_indices (lv_open level))"
    unfolding open_indices_def set_map set_filter by (metis (mono_tags, lifting) atLeastLessThan_iff image_eqI mem_Collect_eq set_upt zero_le)
next
  fix i assume "i \<in> set (open_indices (lv_open level))"
  then show "i \<in> OpenSet level"
    by (auto simp: open_indices_def OpenSet_def)
qed

text \<open>A request of mode 1 for a grid of width 3 and height 1, with the seed \<open>abc\<close>.\<close>

definition request_3x1 :: GameParams where
  "request_3x1 =
     \<lparr>p_v = Some (Num 1), p_m = Some (Num 1), p_w = Some (Num 3), p_h = Some (Num 1),
      p_k = Some (Num 1), p_hd = None, p_diff = Some (charCodes ''easy''),
      p_seed = Some (charCodes ''abc'')\<rparr>"

text \<open>A request of mode 1 for a 3 by 3 grid with hole density 0.45 and the seed \<open>abc\<close>.\<close>

definition request_3x3 :: GameParams where
  "request_3x3 =
     \<lparr>p_v = Some (Num 1), p_m = Some (Num 1), p_w = Some (Num 3), p_h = Some (Num 3),
      p_k = Some (Num 1), p_hd = Some (Num (45 / 100)), p_diff = Some (charCodes ''easy''),
      p_seed = Some (charCodes ''abc'')\<rparr>"


lemma request_3x1_path: "mode1_hamPath request_3x1 = \<lparr>hp_path = [(0, 0), (1, 0)], hp_success = True\<rparr>"
  by code_simp

lemma request_3x1_level:
  "generateLevel request_3x1 =
     Inr \<lparr>lv_v = 1, lv_mode = 1, lv_w = 3, lv_h = 1, lv_open = [1, 1, 0], lv_starts = [(0, 0)],
       lv_pairs = None, lv_solution = [1],
       lv_metrics = \<lparr>dm_size = 2, dm_holeDensity = 1 / 3, dm_branchingFactor = 1,
         dm_forcedMoveRatio = 1, dm_corridorsPercent = 0, dm_turnRate = 0\<rparr>,
       lv_seed = charCodes ''abc'', lv_params = request_3x1\<rparr>"
  by code_simp

lemma request_3x3_level:
  "generateLevel request_3x3 =
     Inr \<lparr>lv_v = 1, lv_mode = 1, lv_w = 3, lv_h = 3, lv_open = [0, 1, 1, 0, 0, 0, 0, 1, 1],
       lv_starts = [(0, 1)], lv_pairs = None, lv_solution = [1, 2, 2, 3],
       lv_metrics = \<lparr>dm_size = 4, dm_holeDensity = 9 / 20, dm_branchingFactor = 2,
         dm_forcedMoveRatio = 3 / 10, dm_corridorsPercent = 1 / 5, dm_turnRate = 2 / 5\<rparr>,
       lv_seed = charCodes ''abc'', lv_params = request_3x3\<rparr>"
  by code_simp


text \<open>
  C2, as the code has it.  In a level of mode 1 built from a successful Hamiltonian path,
  \<open>solution\<close> is the sequence of the directions of the path, one fewer than the open
  cells, and not a list of cell indices.  Followed from the start cell, the directions
  visit every open cell exactly once, each step between 4-adjacent cells: the cells
  visited are as many as the open set, distinct, consecutively 4-adjacent, and their
  set is the open set.
\<close>

theorem mode1_solution_directions:
  assumes "num_or (p_m params) 1 = 1" and "1 \<le> num_or (p_w params) 10"
    and "1 \<le> num_or (p_h params) 10" and "hp_success (mode1_hamPath params)"
  shows "\<exists>level start. generateLevel params = Inr level \<and> lv_mode level = 1
    \<and> lv_starts level = [(0, start)]
    \<and> int (length (lv_solution level)) = int (card (OpenSet level)) - 1
    \<and> set (lv_solution level) \<subseteq> {0, 1, 2, 3}
    \<and> length (walk (lv_w level) start (lv_solution level)) = card (OpenSet level)
    \<and> distinct (walk (lv_w level) start (lv_solution level))
    \<and> successively (areNeighbors (lv_w level)) (walk (lv_w level) start (lv_solution level))
    \<and> set (walk (lv_w level) start (lv_solution level)) = OpenSet level"
proof -
  define W where "W = num_or (p_w params) 10"
  define H where "H = num_or (p_h params) 10"
  define path where "path = hp_path (mode1_hamPath params)"
  obtain level where level: "generateLevel params = Inr level" "lv_mode level = 1"
    "lv_w level = W" "lv_starts level = [(0, cell_index W (hd path))]"
    "lv_solution level = pathToSolution path" "OpenSet level = cell_index W ` set path"
    using mode1_level(1) [OF assms] unfolding W_def path_def by blast
  have path: "path \<noteq> []" "distinct path" "steps_ok path" "\<forall>c\<in>set path. in_bounds W H c"
    using mode1_level(2-5) [OF assms] unfolding W_def H_def path_def by simp_all
  obtain c rest where cr: "path = c # rest" using path(1) by (cases path) auto
  have walk: "walk W (cell_index W (hd path)) (pathToSolution path) = map (cell_index W) path"
    using walk_pathToSolution [of c rest W] path(3) by (simp add: cr)
  have inj: "inj_on (cell_index W) (set path)"
  proof (rule inj_onI)
    fix c d assume "c \<in> set path" "d \<in> set path" "cell_index W c = cell_index W d"
    then show "c = d" using cell_index_inj [of W H c d] path(4) by simp
  qed
  have d: "distinct (map (cell_index W) path)"
    using path(2) inj by (simp add: distinct_map)
  have card: "card (OpenSet level) = length path"
    using d by (metis level(6) distinct_card length_map set_map)
  have dirs: "set (pathToSolution q) \<subseteq> {0, 1, 2, 3}" for q
    by (induction q rule: pathToSolution.induct) auto
  have "int (length (lv_solution level)) = int (card (OpenSet level)) - 1"
    using path(1) by (simp add: level(5) card length_pathToSolution cr)
  moreover have "successively (areNeighbors W) (map (cell_index W) path)"
    using path(3,4) by (rule successively_cell_index)
  ultimately show ?thesis
    using level walk d card dirs
    by (intro exI [of _ level] exI [of _ "cell_index W (hd path)"]) simp
qed

theorem mode1_solution_directions_witness:
  "num_or (p_m request_3x1) 1 = 1 \<and> 1 \<le> num_or (p_w request_3x1) 10
    \<and> 1 \<le> num_or (p_h request_3x1) 10 \<and> hp_success (mode1_hamPath request_3x1)
    \<and> (\<exists>level start. generateLevel request_3x1 = Inr level \<and> lv_mode level = 1
      \<and> lv_starts level = [(0, start)]
      \<and> int (length (lv_solution level)) = int (card (OpenSet level)) - 1
      \<and> set (lv_solution level) \<subseteq> {0, 1, 2, 3}
      \<and> length (walk (lv_w level) start (lv_solution level)) = card (OpenSet level)
      \<and> distinct (walk (lv_w level) start (lv_solution level))
      \<and> successively (areNeighbors (lv_w level)) (walk (lv_w level) start (lv_solution level))
      \<and> set (walk (lv_w level) start (lv_solution level)) = OpenSet level)"
proof -
  have m: "num_or (p_m request_3x1) 1 = 1" and w: "1 \<le> num_or (p_w request_3x1) 10"
    and h: "1 \<le> num_or (p_h request_3x1) 10"
    by (simp_all add: request_3x1_def num_or_def)
  have ok: "hp_success (mode1_hamPath request_3x1)"
    by (simp add: request_3x1_path)
  show ?thesis
    using m w h ok mode1_solution_directions [OF m w h ok] by blast
qed

text \<open>
  The claim C2 as it is stated fails on the level of \<open>request_3x1\<close>: its open set has two
  cells and its solution is the single direction 1 (right), not a path of two cell indices.
\<close>

theorem mode1_solution_counterexample:
  "generateLevel request_3x1 \<noteq> Inl RangeError
   \<and> lv_mode (projr (generateLevel request_3x1)) = 1
   \<and> lv_open (projr (generateLevel request_3x1)) = [1, 1, 0]
   \<and> lv_solution (projr (generateLevel request_3x1)) = [1]
   \<and> OpenSet (projr (generateLevel request_3x1)) = {0, 1}
   \<and> length (lv_solution (projr (generateLevel request_3x1)))
        \<noteq> card (OpenSet (projr (generateLevel request_3x1)))
   \<and> set (lv_solution (projr (generateLevel request_3x1)))
        \<noteq> OpenSet (projr (generateLevel request_3x1))"
proof -
  have "open_indices [1, 1, 0] = [0, 1]"
    by code_simp
  then have "OpenSet (projr (generateLevel request_3x1)) = {0, 1}"
    unfolding request_3x1_level OpenSet_indices by simp
  then show ?thesis
    by (simp add: request_3x1_level)
qed

text \<open>
  C3, as the code has it.  In a level of mode 1 built from a successful Hamiltonian path,
  the open set is one 4-connected component.  (The other modes and the fallback use
  \<open>generateSimpleLevel\<close>, which opens a random sample of the cells.)
\<close>

theorem mode1_open_set_connected:
  assumes "num_or (p_m params) 1 = 1" and "1 \<le> num_or (p_w params) 10"
    and "1 \<le> num_or (p_h params) 10" and "hp_success (mode1_hamPath params)"
  shows "\<exists>level. generateLevel params = Inr level
    \<and> connected_by (areNeighbors (lv_w level)) (OpenSet level)"
proof -
  define W where "W = num_or (p_w params) 10"
  define H where "H = num_or (p_h params) 10"
  define path where "path = hp_path (mode1_hamPath params)"
  obtain level where level: "generateLevel params = Inr level"
    "lv_w level = W" "OpenSet level = cell_index W ` set path"
    using mode1_level(1) [OF assms] unfolding W_def path_def by blast
  have path: "path \<noteq> []" "steps_ok path" "\<forall>c\<in>set path. in_bounds W H c"
    using mode1_level(2,4,5) [OF assms] unfolding W_def H_def path_def by simp_all
  have "successively (areNeighbors W) (map (cell_index W) path)"
    using path(2,3) by (rule successively_cell_index)
  then have "connected_by (areNeighbors W) (set (map (cell_index W) path))"
    using path(1) by (intro successively_connected) (simp_all add: areNeighbors_sym)
  then show ?thesis
    using level by (intro exI [of _ level]) simp
qed

theorem mode1_open_set_connected_witness:
  "num_or (p_m request_3x1) 1 = 1 \<and> 1 \<le> num_or (p_w request_3x1) 10
    \<and> 1 \<le> num_or (p_h request_3x1) 10 \<and> hp_success (mode1_hamPath request_3x1)
    \<and> (\<exists>level. generateLevel request_3x1 = Inr level
      \<and> connected_by (areNeighbors (lv_w level)) (OpenSet level))"
proof -
  have m: "num_or (p_m request_3x1) 1 = 1" and w: "1 \<le> num_or (p_w request_3x1) 10"
    and h: "1 \<le> num_or (p_h request_3x1) 10"
    by (simp_all add: request_3x1_def num_or_def)
  have ok: "hp_success (mode1_hamPath request_3x1)"
    by (simp add: request_3x1_path)
  show ?thesis
    using m w h ok mode1_open_set_connected [OF m w h ok] by blast
qed

text \<open>
  The claim C3 as it is stated fails on the level of \<open>request_3x3\<close>.  The region grown
  for it has the shape of a T, which no Hamiltonian path covers, so the level comes
  from the fallback: the cells 1, 2, 7 and 8 are open, and the row between them is
  blocked.
\<close>

theorem open_set_connected_counterexample:
  "generateLevel request_3x3 \<noteq> Inl RangeError
   \<and> lv_mode (projr (generateLevel request_3x3)) = 1
   \<and> lv_w (projr (generateLevel request_3x3)) = 3
   \<and> lv_open (projr (generateLevel request_3x3)) = [0, 1, 1, 0, 0, 0, 0, 1, 1]
   \<and> \<not> connected_by (areNeighbors (lv_w (projr (generateLevel request_3x3))))
         (OpenSet (projr (generateLevel request_3x3)))"
proof -
  define level where "level = projr (generateLevel request_3x3)"
  have lo: "lv_open level = [0, 1, 1, 0, 0, 0, 0, 1, 1]" and lw: "lv_w level = 3"
    and lm: "lv_mode level = 1"
    by (simp_all add: level_def request_3x3_level)
  have "open_indices [0, 1, 1, 0, 0, 0, 0, 1, 1] = [1, 2, 7, 8]"
    by code_simp
  then have os: "OpenSet level = {1, 2, 7, 8}"
    unfolding OpenSet_indices lo by simp
  let ?R = "{(c, d). c \<in> OpenSet level \<and> d \<in> OpenSet level \<and> areNeighbors 3 c d}"
  have far: "\<not> areNeighbors 3 1 7" "\<not> areNeighbors 3 1 8" "\<not> areNeighbors 3 2 7"
    "\<not> areNeighbors 3 2 8"
    by (simp_all add: areNeighbors_def)
  have stay: "x \<in> {1, 2}" if "(1, x) \<in> ?R\<^sup>*" for x
    using that
  proof (induction rule: rtrancl_induct)
    case base
    then show ?case by simp
  next
    case (step y z)
    then have "y \<in> {1, 2}" "z \<in> {1, 2, 7, 8}" "areNeighbors 3 y z"
      unfolding os by simp_all
    then show ?case using far by auto
  qed
  have "\<not> connected_by (areNeighbors 3) (OpenSet level)"
  proof
    assume "connected_by (areNeighbors 3) (OpenSet level)"
    then have "(1, 7) \<in> ?R\<^sup>*"
      unfolding connected_by_def os by blast
    then show False using stay [of 7] by simp
  qed
  then show ?thesis
    using lo lw lm unfolding level_def by (simp add: request_3x3_level)
qed

section \<open>The copy of the generator in lib/worker-factory.ts\<close>

text \<open>
  The worker that the application starts is assembled from strings that hold a second
  copy of the generator.  Its functions are translated here from that text, with the
  prefix \<open>wf_\<close>.  \<open>pathToSolution\<close> and \<open>calculateMetrics\<close> have the same text in both
  copies.  A region of this copy has no \<open>width\<close> and \<open>height\<close>; the fields \<open>rg_width\<close>
  and \<open>rg_height\<close> of its record are 0 and are never read.
\<close>

subsection \<open>PRNG\<close>

fun wf_hashString_loop :: "jsstring \<Rightarrow> int \<Rightarrow> int" where
  "wf_hashString_loop [] hash = hash"
| "wf_hashString_loop (char # rest) hash =
     (let hash1 = (js_shl hash 5 - hash) + char;
          hash2 = js_and hash1 hash1
      in wf_hashString_loop rest hash2)"

definition wf_hashString :: "jsstring \<Rightarrow> int" where
  "wf_hashString str = \<bar>wf_hashString_loop str 0\<bar>"

text \<open>Here \<open>prng_a\<close> is the field \<open>state\<close> of the class.\<close>

definition wf_PRNG_new :: "jsstring \<Rightarrow> PRNG" where
  "wf_PRNG_new str = \<lparr>prng_seed = wf_hashString str, prng_a = wf_hashString str\<rparr>"

definition wf_random :: "PRNG \<Rightarrow> rat \<times> PRNG" where
  "wf_random g =
     (let state = prng_a g + 0x6D2B79F5;
          t0 = ToInt32 state;
          t1 = (t0 XOR drop_bit 15 t0) * (t0 OR 1);
          t2 = t1 XOR (t1 + (t1 XOR drop_bit 7 t1) * (t1 OR 61))
      in (of_int (uint (t2 XOR drop_bit 14 t2)) / 4294967296, g\<lparr>prng_a := state\<rparr>))"

definition wf_randInt :: "int \<Rightarrow> int \<Rightarrow> PRNG \<Rightarrow> int \<times> PRNG" where
  "wf_randInt lo hi g =
     (let (r, g') = wf_random g in (\<lfloor>r * of_int (hi - lo + 1)\<rfloor> + lo, g'))"

fun wf_shuffle_loop :: "nat \<Rightarrow> 'a list \<Rightarrow> PRNG \<Rightarrow> 'a list \<times> PRNG" where
  "wf_shuffle_loop 0 result g = (result, g)"
| "wf_shuffle_loop (Suc n) result g =
     (let (j, g') = wf_randInt 0 (int (Suc n)) g
      in wf_shuffle_loop n (swap result (Suc n) (nat j)) g')"

definition wf_shuffle :: "'a list \<Rightarrow> PRNG \<Rightarrow> 'a list \<times> PRNG" where
  "wf_shuffle array g = wf_shuffle_loop (length array - 1) array g"

lemma wf_hashString_eq: "wf_hashString str = hashString str"
proof -
  have "wf_hashString_loop s h = hashString_loop s h" for s h
    by (induction s arbitrary: h) (simp_all add: Let_def)
  then show ?thesis by (simp add: wf_hashString_def hashString_def)
qed

lemma wf_PRNG_new_eq: "wf_PRNG_new str = PRNG_new str"
  by (simp add: wf_PRNG_new_def PRNG_new_def wf_hashString_eq)

lemma wf_random_eq: "wf_random g = random g"
  by (simp add: wf_random_def random_def mulberry32_mix_def Let_def)

lemma wf_randInt_eq: "wf_randInt lo hi g = randInt lo hi g"
  by (simp add: wf_randInt_def randInt_def wf_random_eq)

lemma wf_shuffle_loop_eq: "wf_shuffle_loop n xs g = shuffle_loop n xs g"
  by (induction n arbitrary: xs g) (simp_all add: wf_randInt_eq split_beta)

lemma wf_shuffle_eq: "wf_shuffle xs g = shuffle xs g"
  by (simp add: wf_shuffle_def shuffle_def wf_shuffle_loop_eq)

subsection \<open>Regions\<close>

definition wf_addToFrontier :: "int \<Rightarrow> int \<Rightarrow> cell list \<Rightarrow> cell \<Rightarrow> cell list \<Rightarrow> cell list" where
  "wf_addToFrontier width height cells n frontier =
     (if fst n \<ge> 0 \<and> fst n < width \<and> snd n \<ge> 0 \<and> snd n < height
      then (if \<not> Set_has cells n
            then (let exists = list_ex (\<lambda>f. fst f = fst n \<and> snd f = snd n) frontier
                  in if \<not> exists then frontier @ [n] else frontier)
            else frontier)
      else frontier)"

text \<open>\<open>frontier.splice(idx, 1)\<close>, for an index inside the array.\<close>

definition splice1 :: "'a list \<Rightarrow> nat \<Rightarrow> 'a list" where
  "splice1 xs idx = take idx xs @ drop (Suc idx) xs"

function wf_grow ::
    "int \<Rightarrow> int \<Rightarrow> int \<Rightarrow> cell list \<Rightarrow> cell list \<Rightarrow> PRNG \<Rightarrow> cell list \<times> cell list \<times> PRNG" where
  "wf_grow width height targetCells cells frontier g =
     (if int (Set_size cells) < targetCells \<and> length frontier > 0
      then
        (let ri = wf_randInt 0 (int (length frontier) - 1) g;
             idx = nat (fst ri);
             c = frontier ! idx;
             frontier1 = splice1 frontier idx
         in if Set_has cells c then wf_grow width height targetCells cells frontier1 (snd ri)
            else
              (let cells1 = Set_add c cells;
                   frontier2 =
                     fold (\<lambda>d fr. wf_addToFrontier width height cells1
                                     (fst c + fst d, snd c + snd d) fr)
                       [(0, 1), (1, 0), (0, -1), (-1, 0)] frontier1
               in wf_grow width height targetCells cells1 frontier2 (snd ri)))
      else (cells, frontier, g))"
  by pat_completeness auto
termination
proof (relation "measures [\<lambda>(width, height, targetCells, cells, frontier, g). nat (targetCells - int (length cells)),
                          \<lambda>(width, height, targetCells, cells, frontier, g). length frontier]",
       goal_cases)
  case 1
  then show ?case by simp
next
  case (2 width height targetCells cells frontier g ri idx c frontier1)
  have "0 \<le> fst ri \<and> fst ri \<le> int (length frontier) - 1"
    unfolding 2(2) wf_randInt_eq using 2(1) by (intro randInt_range) simp
  then have "idx < length frontier" unfolding 2(3) by linarith
  then have "length frontier1 < length frontier"
    unfolding 2(5) splice1_def by simp
  then show ?case by simp
next
  case (3 width height targetCells cells frontier g ri idx c frontier1 cells1 frontier2)
  have "length cells1 = Suc (length cells)"
    using 3(6) unfolding 3(7) by (simp add: Set_add_def)
  then show ?case using 3(1) by (simp add: Set_size_def)
qed

declare wf_grow.simps [simp del]

definition wf_generateIRRegion :: "int \<Rightarrow> int \<Rightarrow> PRNG \<Rightarrow> rat \<Rightarrow> IRRegion \<times> PRNG" where
  "wf_generateIRRegion width height prng fillRatio =
     (let targetCells = \<lfloor>of_int width * of_int height * fillRatio\<rfloor>;
          startX = width div 2;
          startY = height div 2;
          cells = Set_add (startX, startY) [];
          frontier =
            fold (wf_addToFrontier width height cells)
              [(startX + 1, startY), (startX - 1, startY), (startX, startY + 1),
               (startX, startY - 1)] [];
          grown = wf_grow width height targetCells cells frontier prng;
          (minX, maxX, minY, maxY) = region_bounds width height (fst grown)
      in (\<lparr>rg_cells = fst grown, rg_width = 0, rg_height = 0,
           rg_minX = minX, rg_maxX = maxX, rg_minY = minY, rg_maxY = maxY\<rparr>,
          snd (snd grown)))"

definition wf_normalizeRegion :: "IRRegion \<Rightarrow> IRRegion" where
  "wf_normalizeRegion region =
     \<lparr>rg_cells =
        fold (\<lambda>(x, y) normalized. Set_add (x - rg_minX region, y - rg_minY region) normalized)
          (rg_cells region) [],
      rg_width = 0, rg_height = 0,
      rg_minX = 0, rg_maxX = rg_maxX region - rg_minX region,
      rg_minY = 0, rg_maxY = rg_maxY region - rg_minY region\<rparr>"

subsection \<open>Hamiltonian paths\<close>

definition MAX_DFS_CALLS :: int where
  "MAX_DFS_CALLS = 10000"

text \<open>
  The neighbours that \<open>dfs\<close> collects: here \<open>region.cells.has\<close> is asked for the cell
  itself, without the lower bounds of the region.
\<close>

definition wf_region_neighbors :: "IRRegion \<Rightarrow> cell \<Rightarrow> cell list" where
  "wf_region_neighbors region c =
     filter (\<lambda>n. Set_has (rg_cells region) n)
       (map (\<lambda>d. (fst c + fst d, snd c + snd d)) [(0, 1), (1, 0), (0, -1), (-1, 0)])"

lemma wf_shuffle_set: "set (fst (wf_shuffle xs g)) = set xs"
  using shuffle_perm [of xs g] unfolding wf_shuffle_eq by (metis set_mset_mset)

text \<open>
  \<open>dfsCallCount\<close> is a variable of the worker script; \<open>dfs\<close> takes its value and
  returns the new one, next to the state of the generator.
\<close>

function wf_dfs ::
    "cell \<Rightarrow> cell list \<Rightarrow> cell list \<Rightarrow> cell list \<Rightarrow> IRRegion \<Rightarrow> PRNG \<times> int
       \<Rightarrow> bool \<times> cell list \<times> PRNG \<times> int" where
  "wf_dfs current cells visited path region st =
     (let dfsCallCount = snd st + 1
      in if dfsCallCount > MAX_DFS_CALLS then (False, path, fst st, dfsCallCount)
         else
           (let visited1 = Set_add current visited;
                path1 = path @ [current]
            in if length path1 = length cells then (True, path1, fst st, dfsCallCount)
               else
                 (let neighbors =
                        filter (\<lambda>n. \<not> Set_has visited1 n) (wf_region_neighbors region current);
                      shuffledNeighbors = wf_shuffle neighbors (fst st)
                  in try_each (\<lambda>neighbor s. wf_dfs neighbor cells visited1 path1 region s)
                       (fst shuffledNeighbors) path (snd shuffledNeighbors, dfsCallCount))))"
  by pat_completeness auto
termination
proof (relation "measure (\<lambda>(current, cells, visited, path, region, st).
         card (set (rg_cells region) - insert current (set visited)))", goal_cases)
  case 1
  then show ?case by simp
next
  case (2 current cells visited path region st dfsCallCount visited1 path1 neighbors
      shuffledNeighbors n s)
  have "n \<in> set neighbors"
    using 2(8) wf_shuffle_set [of neighbors "fst st"] unfolding 2(7) by simp
  then have "n \<in> set (wf_region_neighbors region current)" "n \<notin> set visited1"
    unfolding 2(6) by (simp_all add: Set_has_def)
  then have n: "n \<in> set (rg_cells region)" "n \<notin> insert current (set visited)"
    unfolding 2(3) wf_region_neighbors_def Set_has_def set_filter by simp_all
  have "set (rg_cells region) - insert n (set visited1)
          \<subset> set (rg_cells region) - insert current (set visited)"
    using n unfolding 2(3) by auto
  then have "card (set (rg_cells region) - insert n (set visited1))
          < card (set (rg_cells region) - insert current (set visited))"
    by (simp add: psubset_card_mono)
  then show ?case by simp
qed

declare wf_dfs.simps [simp del]


text \<open>
  The loop over the starting points.  \<open>dfsCallCount = 0\<close> resets the counter before each
  of them.
\<close>

fun wf_try_starts ::
    "cell list \<Rightarrow> cell list \<Rightarrow> IRRegion \<Rightarrow> PRNG \<times> int \<Rightarrow> HamiltonianPath \<times> PRNG \<times> int" where
  "wf_try_starts [] cells region st = (\<lparr>hp_path = [], hp_success = False\<rparr>, st)"
| "wf_try_starts (start # rest) cells region st =
     (let r = wf_dfs start cells [] [] region (fst st, 0)
      in if fst r then (\<lparr>hp_path = fst (snd r), hp_success = True\<rparr>, snd (snd r))
         else wf_try_starts rest cells region (snd (snd r)))"

definition wf_dfsHamiltonianPath :: "IRRegion \<Rightarrow> PRNG \<times> int \<Rightarrow> HamiltonianPath \<times> PRNG \<times> int" where
  "wf_dfsHamiltonianPath region st =
     (let cells = rg_cells region
      in if length cells = 0 then (\<lparr>hp_path = [], hp_success = False\<rparr>, st)
         else
           (let sh = wf_shuffle cells (fst st);
                shuffledCells = fst sh;
                startingPoints = take (min 5 (length shuffledCells)) shuffledCells
            in wf_try_starts startingPoints cells region (snd sh, snd st)))"

fun wf_attempts :: "nat \<Rightarrow> IRRegion \<Rightarrow> PRNG \<times> int \<Rightarrow> HamiltonianPath \<times> PRNG \<times> int" where
  "wf_attempts 0 region st = (\<lparr>hp_path = [], hp_success = False\<rparr>, st)"
| "wf_attempts (Suc n) region st =
     (let result = wf_dfsHamiltonianPath region st
      in if hp_success (fst result) then result else wf_attempts n region (snd result))"

definition wf_generateHamiltonianPath ::
    "IRRegion \<Rightarrow> PRNG \<times> int \<Rightarrow> nat \<Rightarrow> HamiltonianPath \<times> PRNG \<times> int" where
  "wf_generateHamiltonianPath region st maxAttempts = wf_attempts maxAttempts region st"

subsection \<open>Level generation\<close>

fun wf_random_directions :: "'a list \<Rightarrow> PRNG \<Rightarrow> int list \<times> PRNG" where
  "wf_random_directions [] g = ([], g)"
| "wf_random_directions (x # xs) g =
     (let rg = wf_random g;
          rest = wf_random_directions xs (snd rg)
      in (\<lfloor>fst rg * 4\<rfloor> # fst rest, snd rest))"

definition wf_generateSimpleLevel :: "GameParams \<Rightarrow> PRNG \<Rightarrow> error + Level" where
  "wf_generateSimpleLevel params prng =
     (let w = num_or (p_w params) 10;
          h = num_or (p_h params) 10;
          holeDensity = num_or (p_hd params) (1 / 10);
          mode = num_or (p_m params) 1;
          seed = str_or (p_seed params) (charCodes ''default'');
          totalCells = w * h;
          targetOpenCells = \<lfloor>of_int totalCells * (1 - holeDensity)\<rfloor>
      in case Uint8Array_new totalCells of
           Inl e \<Rightarrow> Inl e
         | Inr open0 \<Rightarrow>
             (let openIndices = map int [0..<nat totalCells];
                  sh = wf_shuffle openIndices prng;
                  shuffled = fst sh;
                  opn = fold (\<lambda>i opn. if i < length shuffled
                                       then Uint8Array_set opn (shuffled ! i) 1 else opn)
                          [0..<nat targetOpenCells] open0;
                  startIndex = shuffled ! 0;
                  starts = [(0, startIndex)];
                  solution = fst (wf_random_directions (slice0 shuffled targetOpenCells) (snd sh))
              in Inr \<lparr>lv_v = 1, lv_mode = mode, lv_w = w, lv_h = h, lv_open = opn,
                      lv_starts = starts, lv_pairs = None, lv_solution = solution,
                      lv_metrics =
                        \<lparr>dm_size = targetOpenCells, dm_holeDensity = holeDensity,
                         dm_branchingFactor = 2, dm_forcedMoveRatio = 3 / 10,
                         dm_corridorsPercent = 2 / 10, dm_turnRate = 4 / 10\<rparr>,
                      lv_seed = seed, lv_params = params\<rparr>))"

text \<open>
  The second argument is the value of \<open>dfsCallCount\<close> that earlier requests have left;
  the second component of the result is its value after the request.
\<close>

definition wf_generateLevel :: "GameParams \<Rightarrow> int \<Rightarrow> (error + Level) \<times> int" where
  "wf_generateLevel params dfsCallCount =
     (let seed = str_or (p_seed params) (charCodes ''default'');
          prng = wf_PRNG_new seed;
          w = num_or (p_w params) 10;
          h = num_or (p_h params) 10;
          holeDensity = num_or (p_hd params) (1 / 10);
          mode = num_or (p_m params) 1
      in if mode = 1 then
           (let fillRatio = 1 - holeDensity;
                rg = wf_generateIRRegion w h prng fillRatio;
                region = fst rg;
                normalized = wf_normalizeRegion region;
                hp = wf_generateHamiltonianPath normalized (snd rg, dfsCallCount) 3;
                hamPath = fst hp
            in if \<not> hp_success hamPath \<or> length (hp_path hamPath) = 0
               then (wf_generateSimpleLevel params (fst (snd hp)), snd (snd hp))
               else
                 (let originalPath =
                        map (\<lambda>c. (fst c + rg_minX region, snd c + rg_minY region))
                          (hp_path hamPath)
                  in case Uint8Array_new (w * h) of
                       Inl e \<Rightarrow> (Inl e, snd (snd hp))
                     | Inr open0 \<Rightarrow>
                         (let opn = fold (\<lambda>c opn. Uint8Array_set opn (snd c * w + fst c) 1)
                                      (rg_cells region) open0;
                              start = originalPath ! 0;
                              startIndex = snd start * w + fst start;
                              starts = [(0, startIndex)];
                              solution = pathToSolution originalPath;
                              metrics = calculateMetrics normalized (hp_path hamPath) w h
                          in (Inr \<lparr>lv_v = 1, lv_mode = mode, lv_w = w, lv_h = h,
                                   lv_open = opn, lv_starts = starts, lv_pairs = None,
                                   lv_solution = solution, lv_metrics = metrics,
                                   lv_seed = seed, lv_params = params\<rparr>,
                              snd (snd hp)))))
         else (wf_generateSimpleLevel params prng, dfsCallCount))"

section \<open>The two copies of the generator compared\<close>

lemma wf_random_directions_eq: "wf_random_directions xs g = random_directions xs g"
  by (induction xs arbitrary: g) (simp_all add: wf_random_eq Let_def)

lemma wf_generateSimpleLevel_eq: "wf_generateSimpleLevel params prng = generateSimpleLevel params prng"
proof -
  have sh: "wf_shuffle = (shuffle :: int list \<Rightarrow> PRNG \<Rightarrow> int list \<times> PRNG)"
    by (intro ext) (rule wf_shuffle_eq)
  have rd: "wf_random_directions = (random_directions :: int list \<Rightarrow> PRNG \<Rightarrow> int list \<times> PRNG)"
    by (intro ext) (rule wf_random_directions_eq)
  show ?thesis
    unfolding wf_generateSimpleLevel_def generateSimpleLevel_def sh rd by (rule refl)
qed

text \<open>A request of mode 2 for a 3 by 3 grid with hole density 0.45 and the seed \<open>abc\<close>.\<close>

definition request_mode2 :: GameParams where
  "request_mode2 =
     \<lparr>p_v = Some (Num 1), p_m = Some (Num 2), p_w = Some (Num 3), p_h = Some (Num 3),
      p_k = Some (Num 3), p_hd = Some (Num (45 / 100)), p_diff = Some (charCodes ''easy''),
      p_seed = Some (charCodes ''abc'')\<rparr>"

lemma wf_request_3x1_level:
  "fst (wf_generateLevel request_3x1 0) =
     Inr \<lparr>lv_v = 1, lv_mode = 1, lv_w = 3, lv_h = 1, lv_open = [0, 1, 1], lv_starts = [(0, 2)],
       lv_pairs = None, lv_solution = [3],
       lv_metrics = \<lparr>dm_size = 2, dm_holeDensity = 1 / 3, dm_branchingFactor = 1,
         dm_forcedMoveRatio = 1, dm_corridorsPercent = 0, dm_turnRate = 0\<rparr>,
       lv_seed = charCodes ''abc'', lv_params = request_3x1\<rparr>"
  by code_simp

text \<open>
  C4, as the code has it.  For a request whose mode is not 1, the module and the copy in
  lib/worker-factory.ts compute the same level, whatever the call counter of the worker
  holds: both build the same generator from the seed and run the same simple generation.
\<close>

theorem copies_agree_outside_mode1:
  assumes "num_or (p_m params) 1 \<noteq> 1"
  shows "fst (wf_generateLevel params dfsCallCount) = generateLevel params"
  using assms
  by (simp add: wf_generateLevel_def generateLevel_def Let_def wf_PRNG_new_eq
      wf_generateSimpleLevel_eq)

theorem copies_agree_outside_mode1_witness:
  "num_or (p_m request_mode2) 1 \<noteq> 1
   \<and> fst (wf_generateLevel request_mode2 0) = generateLevel request_mode2"
proof -
  have m: "num_or (p_m request_mode2) 1 \<noteq> 1"
    by (simp add: request_mode2_def num_or_def)
  show ?thesis
    using m copies_agree_outside_mode1 [OF m, of 0] by simp
qed

text \<open>
  The claim C4 as it is stated fails on \<open>request_3x1\<close>: the module opens the cells 0 and
  1 and starts the path at cell 0 with the direction 1, the copy in lib/worker-factory.ts
  opens the cells 1 and 2 and starts at cell 2 with the direction 3.
\<close>

theorem copies_diverge_counterexample:
  "lv_open (projr (generateLevel request_3x1)) = [1, 1, 0]
   \<and> lv_open (projr (fst (wf_generateLevel request_3x1 0))) = [0, 1, 1]
   \<and> lv_starts (projr (generateLevel request_3x1)) = [(0, 0)]
   \<and> lv_starts (projr (fst (wf_generateLevel request_3x1 0))) = [(0, 2)]
   \<and> lv_solution (projr (generateLevel request_3x1)) = [1]
   \<and> lv_solution (projr (fst (wf_generateLevel request_3x1 0))) = [3]
   \<and> fst (wf_generateLevel request_3x1 0) \<noteq> generateLevel request_3x1"
  by (simp add: request_3x1_level wf_request_3x1_level)

section \<open>The candidates and the budget of the fallback search\<close>

subsection \<open>Both copies start from five cells at most\<close>

text \<open>
  A path that \<open>dfs\<close> returns goes on from the path it was given with the cell it was
  called for, so the path that the fallback returns begins at the start cell whose
  traversal found it: one of the first five cells of the shuffle.
\<close>

lemma dfs_path_prefix:
  "fst (dfs current cells visited path region prng) \<Longrightarrow>
     \<exists>rest. fst (snd (dfs current cells visited path region prng)) = path @ current # rest"
proof (induction current cells visited path region prng rule: dfs.induct)
  case (1 current cells visited path region prng)
  define visited1 where "visited1 = Set_add current visited"
  define path1 where "path1 = path @ [current]"
  define neighbors where
    "neighbors = filter (\<lambda>n. \<not> Set_has visited1 n) (region_neighbors region current)"
  define shuffled where "shuffled = fisher_yates (length neighbors - 1) neighbors prng"
  show ?case
  proof (cases "length path1 = length cells")
    case True
    then have "dfs current cells visited path region prng = (True, path1, prng)"
      by (subst dfs.simps) (simp add: Let_def path1_def)
    then show ?thesis by (simp add: path1_def)
  next
    case False
    have "dfs current cells visited path region prng =
        try_each (\<lambda>neighbor g. dfs neighbor cells visited1 path1 region g)
          (fst shuffled) path (snd shuffled)"
      using False
      by (subst dfs.simps) (simp add: Let_def path1_def visited1_def neighbors_def shuffled_def)
    then obtain n g1 where n: "n \<in> set (fst shuffled)"
      and res: "dfs current cells visited path region prng = dfs n cells visited1 path1 region g1"
      and ok: "fst (dfs n cells visited1 path1 region g1)"
      using try_each_success [of "\<lambda>neighbor g. dfs neighbor cells visited1 path1 region g"
          "fst shuffled" path "snd shuffled"] "1.prems"
      by auto
    obtain rest where "fst (snd (dfs n cells visited1 path1 region g1)) = path1 @ n # rest"
      using "1.IH" [OF visited1_def path1_def False neighbors_def shuffled_def n ok] by blast
    then show ?thesis
      unfolding res by (simp add: path1_def)
  qed
qed

lemma try_starts_start:
  "hp_success (fst (try_starts starts cells region g)) \<Longrightarrow>
     hd (hp_path (fst (try_starts starts cells region g))) \<in> set starts"
proof (induction starts arbitrary: g)
  case Nil
  then show ?case by simp
next
  case (Cons start rest)
  show ?case
  proof (cases "fst (dfs start cells [] [] region g)")
    case True
    then show ?thesis
      using dfs_path_prefix [of start cells "[]" "[]" region g] by (auto simp: Let_def)
  next
    case False
    then show ?thesis
      using Cons by (simp add: Let_def)
  qed
qed

lemma dfsHamiltonianPath_start:
  assumes "hp_success (fst (dfsHamiltonianPath region prng))"
  shows "hd (hp_path (fst (dfsHamiltonianPath region prng)))
     \<in> set (take 5 (fst (fisher_yates (length (local_cells region) - 1) (local_cells region) prng)))"
proof -
  let ?cells = "local_cells region"
  let ?sh = "fisher_yates (length ?cells - 1) ?cells prng"
  have "length ?cells \<noteq> 0"
    using assms by (auto simp: dfsHamiltonianPath_def)
  then have "dfsHamiltonianPath region prng = try_starts (take 5 (fst ?sh)) ?cells region (snd ?sh)"
    by (simp add: dfsHamiltonianPath_def Let_def min_def)
  then show ?thesis
    using assms try_starts_start by metis
qed

lemma wf_dfs_path_prefix:
  "fst (wf_dfs current cells visited path region st) \<Longrightarrow>
     \<exists>rest. fst (snd (wf_dfs current cells visited path region st)) = path @ current # rest"
proof (induction current cells visited path region st rule: wf_dfs.induct)
  case (1 current cells visited path region st)
  define dfsCallCount where "dfsCallCount = snd st + 1"
  define visited1 where "visited1 = Set_add current visited"
  define path1 where "path1 = path @ [current]"
  define neighbors where
    "neighbors = filter (\<lambda>n. \<not> Set_has visited1 n) (wf_region_neighbors region current)"
  define shuffledNeighbors where "shuffledNeighbors = wf_shuffle neighbors (fst st)"
  have budget: "\<not> dfsCallCount > MAX_DFS_CALLS"
  proof
    assume "dfsCallCount > MAX_DFS_CALLS"
    then have "wf_dfs current cells visited path region st = (False, path, fst st, dfsCallCount)"
      by (subst wf_dfs.simps) (simp add: dfsCallCount_def)
    then show False using "1.prems" by simp
  qed
  show ?case
  proof (cases "length path1 = length cells")
    case True
    then have "wf_dfs current cells visited path region st = (True, path1, fst st, dfsCallCount)"
      using budget by (subst wf_dfs.simps) (simp add: dfsCallCount_def path1_def Let_def)
    then show ?thesis by (simp add: path1_def)
  next
    case False
    let ?f = "\<lambda>neighbor s. wf_dfs neighbor cells visited1 path1 region s"
    have "wf_dfs current cells visited path region st
          = try_each ?f (fst shuffledNeighbors) path (snd shuffledNeighbors, dfsCallCount)"
      using budget False
      by (subst wf_dfs.simps)
        (simp add: dfsCallCount_def path1_def visited1_def neighbors_def shuffledNeighbors_def
          Let_def)
    then obtain n s1 where n: "n \<in> set (fst shuffledNeighbors)"
      and res: "wf_dfs current cells visited path region st = ?f n s1"
      and ok: "fst (?f n s1)"
      using try_each_success [of ?f "fst shuffledNeighbors" path
          "(snd shuffledNeighbors, dfsCallCount)"] "1.prems"
      by auto
    obtain rest where "fst (snd (?f n s1)) = path1 @ n # rest"
      using "1.IH" [OF dfsCallCount_def budget visited1_def path1_def False neighbors_def
          shuffledNeighbors_def n ok]
      by blast
    then show ?thesis
      unfolding res by (simp add: path1_def)
  qed
qed

lemma wf_try_starts_start:
  "hp_success (fst (wf_try_starts starts cells region st)) \<Longrightarrow>
     hd (hp_path (fst (wf_try_starts starts cells region st))) \<in> set starts"
proof (induction starts arbitrary: st)
  case Nil
  then show ?case by simp
next
  case (Cons start rest)
  show ?case
  proof (cases "fst (wf_dfs start cells [] [] region (fst st, 0))")
    case True
    then show ?thesis
      using wf_dfs_path_prefix [of start cells "[]" "[]" region "(fst st, 0)"]
      by (auto simp: Let_def)
  next
    case False
    then show ?thesis
      using Cons by (simp add: Let_def)
  qed
qed

lemma wf_dfsHamiltonianPath_start:
  assumes "hp_success (fst (wf_dfsHamiltonianPath region st))"
  shows "hd (hp_path (fst (wf_dfsHamiltonianPath region st)))
     \<in> set (take 5 (fst (wf_shuffle (rg_cells region) (fst st))))"
proof -
  let ?sh = "wf_shuffle (rg_cells region) (fst st)"
  have "length (rg_cells region) \<noteq> 0"
    using assms by (auto simp: wf_dfsHamiltonianPath_def)
  then have "wf_dfsHamiltonianPath region st
      = wf_try_starts (take 5 (fst ?sh)) (rg_cells region) region (snd ?sh, snd st)"
    by (simp add: wf_dfsHamiltonianPath_def Let_def min_def)
  then show ?thesis
    using assms wf_try_starts_start by metis
qed

subsection \<open>The copy in lib/worker-factory.ts cuts the search off\<close>

text \<open>
  \<open>dfs\<close> of lib/worker-factory.ts counts its calls in \<open>dfsCallCount\<close>, which is set to 0
  before each start cell.  A call that finds the counter at \<open>MAX_DFS_CALLS\<close> or more
  returns at once, so at most 10,000 calls visit a cell, each of them calls \<open>dfs\<close> for
  four neighbours at most, and the search from one start cell makes at most 40,001 calls.
\<close>

lemma try_each_count:
  fixes f :: "cell \<Rightarrow> PRNG \<times> int \<Rightarrow> bool \<times> cell list \<times> PRNG \<times> int"
  assumes "\<And>n s. n \<in> set ns \<Longrightarrow>
      snd s < snd (snd (snd (f n s)))
      \<and> snd (snd (snd (f n s))) - snd s \<le> 1 + 4 * (min (snd (snd (snd (f n s)))) M - min (snd s) M)"
  shows "snd s \<le> snd (snd (snd (try_each f ns path s)))
    \<and> snd (snd (snd (try_each f ns path s))) - snd s
        \<le> int (length ns) + 4 * (min (snd (snd (snd (try_each f ns path s)))) M - min (snd s) M)"
  using assms
proof (induction ns arbitrary: s)
  case Nil
  then show ?case by simp
next
  case (Cons n ns)
  have step: "snd s < snd (snd (snd (f n s)))
      \<and> snd (snd (snd (f n s))) - snd s \<le> 1 + 4 * (min (snd (snd (snd (f n s)))) M - min (snd s) M)"
    using Cons.prems [of n s] by simp
  show ?case
  proof (cases "fst (f n s)")
    case True
    then have "try_each f (n # ns) path s = f n s" by (simp add: Let_def)
    then show ?thesis using step by simp
  next
    case False
    then have eq: "try_each f (n # ns) path s = try_each f ns path (snd (snd (f n s)))"
      by (simp add: Let_def)
    have "snd (snd (snd (f n s))) \<le> snd (snd (snd (try_each f ns path (snd (snd (f n s))))))
      \<and> snd (snd (snd (try_each f ns path (snd (snd (f n s)))))) - snd (snd (snd (f n s)))
          \<le> int (length ns) + 4 * (min (snd (snd (snd (try_each f ns path (snd (snd (f n s))))))) M
               - min (snd (snd (snd (f n s)))) M)"
      using Cons.IH [of "snd (snd (f n s))"] Cons.prems by simp
    then show ?thesis using step unfolding eq by simp
  qed
qed

lemma wf_region_neighbors_length: "length (wf_region_neighbors region c) \<le> 4"
  unfolding wf_region_neighbors_def
  by (rule order_trans [OF length_filter_le]) simp

lemma wf_shuffle_length: "length (fst (wf_shuffle xs g)) = length xs"
  using shuffle_perm [of xs g] by (simp add: wf_shuffle_eq)

lemma wf_dfs_count:
  "snd st < snd (snd (snd (wf_dfs current cells visited path region st)))
   \<and> snd (snd (snd (wf_dfs current cells visited path region st))) - snd st
       \<le> 1 + 4 * (min (snd (snd (snd (wf_dfs current cells visited path region st)))) MAX_DFS_CALLS
                  - min (snd st) MAX_DFS_CALLS)"
proof (induction current cells visited path region st rule: wf_dfs.induct)
  case (1 current cells visited path region st)
  define dfsCallCount where "dfsCallCount = snd st + 1"
  define visited1 where "visited1 = Set_add current visited"
  define path1 where "path1 = path @ [current]"
  define neighbors where
    "neighbors = filter (\<lambda>n. \<not> Set_has visited1 n) (wf_region_neighbors region current)"
  define shuffledNeighbors where "shuffledNeighbors = wf_shuffle neighbors (fst st)"
  show ?case
  proof (cases "dfsCallCount > MAX_DFS_CALLS")
    case True
    then have "wf_dfs current cells visited path region st = (False, path, fst st, dfsCallCount)"
      by (subst wf_dfs.simps) (simp add: dfsCallCount_def)
    then show ?thesis using True by (simp add: dfsCallCount_def)
  next
    case budget: False
    show ?thesis
    proof (cases "length path1 = length cells")
      case True
      then have "wf_dfs current cells visited path region st = (True, path1, fst st, dfsCallCount)"
        using budget by (subst wf_dfs.simps) (simp add: dfsCallCount_def path1_def Let_def)
      then show ?thesis using budget by (simp add: dfsCallCount_def)
    next
      case False
      let ?f = "\<lambda>neighbor s. wf_dfs neighbor cells visited1 path1 region s"
      let ?r = "try_each ?f (fst shuffledNeighbors) path (snd shuffledNeighbors, dfsCallCount)"
      have eq: "wf_dfs current cells visited path region st = ?r"
        using budget False
        by (subst wf_dfs.simps)
          (simp add: dfsCallCount_def path1_def visited1_def neighbors_def shuffledNeighbors_def
            Let_def)
      have len: "length (fst shuffledNeighbors) \<le> 4"
        unfolding shuffledNeighbors_def wf_shuffle_length neighbors_def
        by (rule order_trans [OF length_filter_le]) (rule wf_region_neighbors_length)
      have "dfsCallCount \<le> snd (snd (snd ?r))
        \<and> snd (snd (snd ?r)) - dfsCallCount
            \<le> int (length (fst shuffledNeighbors))
               + 4 * (min (snd (snd (snd ?r))) MAX_DFS_CALLS - min dfsCallCount MAX_DFS_CALLS)"
        using try_each_count [of "fst shuffledNeighbors" ?f MAX_DFS_CALLS
            "(snd shuffledNeighbors, dfsCallCount)" path]
          "1.IH" [OF dfsCallCount_def budget visited1_def path1_def False neighbors_def
            shuffledNeighbors_def]
        by simp
      then show ?thesis
        using len budget unfolding eq by (simp add: dfsCallCount_def)
    qed
  qed
qed

lemma wf_dfs_cut_off:
  "MAX_DFS_CALLS \<le> c \<Longrightarrow>
     wf_dfs current cells visited path region (g, c) = (False, path, g, c + 1)"
  by (subst wf_dfs.simps) simp

lemma wf_dfs_calls_bounded:
  "snd (snd (snd (wf_dfs current cells visited path region (g, 0)))) \<le> 1 + 4 * MAX_DFS_CALLS"
proof -
  define c where "c = snd (snd (snd (wf_dfs current cells visited path region (g, 0))))"
  define k where "k = min c MAX_DFS_CALLS"
  have "min 0 MAX_DFS_CALLS = 0"
    by (simp add: MAX_DFS_CALLS_def)
  then have "c \<le> 1 + 4 * k"
    using wf_dfs_count [of "(g, 0)" current cells visited path region] by (simp add: c_def k_def)
  moreover have "k \<le> MAX_DFS_CALLS"
    by (simp add: k_def)
  ultimately have "c \<le> 1 + 4 * MAX_DFS_CALLS" by simp
  then show ?thesis by (simp add: c_def)
qed

subsection \<open>The search of lib/hamiltonian.ts has no budget\<close>

text \<open>
  \<open>dfs\<close> of lib/hamiltonian.ts with a count of its calls.  The source keeps no count; the
  second component of the state is added here to measure the search, one for every call
  of \<open>dfs\<close>, each of which visits a cell (\<open>visited.add\<close>, \<open>path.push\<close>).
\<close>

function dfs_visits ::
    "cell \<Rightarrow> cell list \<Rightarrow> cell list \<Rightarrow> cell list \<Rightarrow> IRRegion \<Rightarrow> PRNG \<times> int
       \<Rightarrow> bool \<times> cell list \<times> PRNG \<times> int" where
  "dfs_visits current cells visited path region st =
     (let visited1 = Set_add current visited;
          path1 = path @ [current]
      in if length path1 = length cells then (True, path1, fst st, snd st + 1)
         else
           (let neighbors = filter (\<lambda>n. \<not> Set_has visited1 n) (region_neighbors region current);
                shuffled = fisher_yates (length neighbors - 1) neighbors (fst st)
            in try_each (\<lambda>neighbor s. dfs_visits neighbor cells visited1 path1 region s)
                 (fst shuffled) path (snd shuffled, snd st + 1)))"
  by pat_completeness auto
termination
proof (relation "measure (\<lambda>(current, cells, visited, path, region, st).
         card (set (local_cells region) - insert current (set visited)))", goal_cases)
  case 1
  then show ?case by simp
next
  case (2 current cells visited path region st visited1 path1 neighbors shuffled n s)
  have "n \<in> set neighbors"
    using 2(6) fisher_yates_set [of neighbors "fst st"] unfolding 2(5) by simp
  then have "n \<in> set (region_neighbors region current)" "n \<notin> set visited1"
    unfolding 2(4) by (simp_all add: Set_has_def)
  then have n: "n \<in> set (local_cells region)" "n \<notin> insert current (set visited)"
    using region_neighbors_local unfolding 2(1) by simp_all
  have "set (local_cells region) - insert n (set visited1)
          \<subset> set (local_cells region) - insert current (set visited)"
    using n unfolding 2(1) by auto
  then have "card (set (local_cells region) - insert n (set visited1))
          < card (set (local_cells region) - insert current (set visited))"
    by (simp add: psubset_card_mono)
  then show ?case by simp
qed

declare dfs_visits.simps [simp del]

text \<open>
  The number of calls that a search makes when it finds no path: one for the cell, and
  those of the searches from each of its neighbours not yet visited, in any order.
  \<open>remaining\<close> is the number of cells that the path still lacks; the result is \<open>None\<close>
  when some walk completes the path.
\<close>

fun walks :: "(cell \<Rightarrow> cell list) \<Rightarrow> cell list \<Rightarrow> nat \<Rightarrow> cell \<Rightarrow> int option" where
  "walks nbrs visited 0 current = None"
| "walks nbrs visited (Suc k) current =
     (if k = 0 then None
      else
        (let visited1 = Set_add current visited;
             neighbors = filter (\<lambda>n. \<not> Set_has visited1 n) (nbrs current);
             rs = map (walks nbrs visited1 k) neighbors
         in if list_all (\<lambda>r. r \<noteq> None) rs then Some (1 + sum_list (map the rs)) else None))"

lemma try_each_erase:
  assumes "\<And>n g c. n \<in> set ns \<Longrightarrow>
      (fst (f' n (g, c)), fst (snd (f' n (g, c))), fst (snd (snd (f' n (g, c))))) = f n g"
  shows "(fst (try_each f' ns path (g, c)), fst (snd (try_each f' ns path (g, c))),
          fst (snd (snd (try_each f' ns path (g, c))))) = try_each f ns path g"
  using assms
proof (induction ns arbitrary: g c)
  case Nil
  then show ?case by simp
next
  case (Cons n ns)
  have step: "(fst (f' n (g, c)), fst (snd (f' n (g, c))), fst (snd (snd (f' n (g, c))))) = f n g"
    using Cons.prems [of n g c] by simp
  show ?case
  proof (cases "fst (f n g)")
    case True
    then have "fst (f' n (g, c))" using step by (metis fst_conv)
    then show ?thesis using True step by (simp add: Let_def)
  next
    case False
    then have nf: "\<not> fst (f' n (g, c))" using step by (metis fst_conv)
    obtain g1 c1 where s1: "snd (snd (f' n (g, c))) = (g1, c1)"
      by (cases "snd (snd (f' n (g, c)))")
    have g1: "snd (snd (f n g)) = g1"
      using step s1 by (metis fst_conv snd_conv)
    have "(fst (try_each f' ns path (g1, c1)), fst (snd (try_each f' ns path (g1, c1))),
          fst (snd (snd (try_each f' ns path (g1, c1))))) = try_each f ns path g1"
      using Cons.IH [of g1 c1] Cons.prems by simp
    then show ?thesis
      using False nf s1 g1 by (simp add: Let_def)
  qed
qed

lemma dfs_visits_dfs:
  "(fst (dfs_visits current cells visited path region (g, c)),
    fst (snd (dfs_visits current cells visited path region (g, c))),
    fst (snd (snd (dfs_visits current cells visited path region (g, c)))))
   = dfs current cells visited path region g"
proof (induction current cells visited path region g arbitrary: c rule: dfs.induct)
  case (1 current cells visited path region prng)
  define visited1 where "visited1 = Set_add current visited"
  define path1 where "path1 = path @ [current]"
  define neighbors where
    "neighbors = filter (\<lambda>n. \<not> Set_has visited1 n) (region_neighbors region current)"
  define shuffled where "shuffled = fisher_yates (length neighbors - 1) neighbors prng"
  show ?case
  proof (cases "length path1 = length cells")
    case True
    then have "dfs_visits current cells visited path region (prng, c) = (True, path1, prng, c + 1)"
      by (subst dfs_visits.simps) (simp add: Let_def path1_def)
    moreover have "dfs current cells visited path region prng = (True, path1, prng)"
      using True by (subst dfs.simps) (simp add: Let_def path1_def)
    ultimately show ?thesis by simp
  next
    case False
    let ?f' = "\<lambda>neighbor s. dfs_visits neighbor cells visited1 path1 region s"
    let ?f = "\<lambda>neighbor g. dfs neighbor cells visited1 path1 region g"
    have l: "dfs_visits current cells visited path region (prng, c)
             = try_each ?f' (fst shuffled) path (snd shuffled, c + 1)"
      using False
      by (subst dfs_visits.simps)
        (simp add: Let_def path1_def visited1_def neighbors_def shuffled_def)
    have r: "dfs current cells visited path region prng
             = try_each ?f (fst shuffled) path (snd shuffled)"
      using False
      by (subst dfs.simps) (simp add: Let_def path1_def visited1_def neighbors_def shuffled_def)
    have "(fst (try_each ?f' (fst shuffled) path (snd shuffled, c + 1)),
           fst (snd (try_each ?f' (fst shuffled) path (snd shuffled, c + 1))),
           fst (snd (snd (try_each ?f' (fst shuffled) path (snd shuffled, c + 1)))))
          = try_each ?f (fst shuffled) path (snd shuffled)"
      by (rule try_each_erase)
        (rule "1.IH" [OF visited1_def path1_def False neighbors_def shuffled_def])
    then show ?thesis
      unfolding l r .
  qed
qed

lemma fisher_yates_mset: "mset (fst (fisher_yates (length xs - 1) xs g)) = mset xs"
  using shuffle_perm [of xs g] unfolding shuffle_def fisher_yates_eq by simp

lemma sum_list_permuted:
  fixes w :: "'a \<Rightarrow> int"
  assumes "mset xs = mset ys"
  shows "sum_list (map w xs) = sum_list (map w ys)"
proof -
  have "sum_mset (mset (map w xs)) = sum_mset (mset (map w ys))"
    using assms by simp
  then show ?thesis
    by (simp only: sum_mset_sum_list)
qed

lemma try_each_exhaust:
  fixes f :: "cell \<Rightarrow> PRNG \<times> int \<Rightarrow> bool \<times> cell list \<times> PRNG \<times> int"
  assumes "\<And>n s. n \<in> set ns \<Longrightarrow> \<not> fst (f n s) \<and> snd (snd (snd (f n s))) = snd s + w n"
  shows "\<not> fst (try_each f ns path s) \<and> fst (snd (try_each f ns path s)) = path
         \<and> snd (snd (snd (try_each f ns path s))) = snd s + sum_list (map w ns)"
  using assms
proof (induction ns arbitrary: s)
  case Nil
  then show ?case by simp
next
  case (Cons n ns)
  have step: "\<not> fst (f n s)" "snd (snd (snd (f n s))) = snd s + w n"
    using Cons.prems [of n s] by simp_all
  have "\<not> fst (try_each f ns path (snd (snd (f n s))))
        \<and> fst (snd (try_each f ns path (snd (snd (f n s))))) = path
        \<and> snd (snd (snd (try_each f ns path (snd (snd (f n s))))))
            = snd (snd (snd (f n s))) + sum_list (map w ns)"
    using Cons.IH [of "snd (snd (f n s))"] Cons.prems by simp
  then show ?case
    using step by (simp add: Let_def)
qed

text \<open>
  When \<open>walks\<close> gives a number, the search of \<open>dfs\<close> fails whatever the generator draws,
  and that number is the number of its calls.
\<close>

lemma walks_dfs_visits:
  assumes "walks (region_neighbors region) visited (length cells - length path) current = Some m"
  shows "\<not> fst (dfs_visits current cells visited path region st)
         \<and> fst (snd (dfs_visits current cells visited path region st)) = path
         \<and> snd (snd (snd (dfs_visits current cells visited path region st))) = snd st + m"
  using assms
proof (induction "length cells - length path" arbitrary: current visited path st m)
  case 0
  then show ?case by simp
next
  case (Suc k)
  define visited1 where "visited1 = Set_add current visited"
  define path1 where "path1 = path @ [current]"
  define neighbors where
    "neighbors = filter (\<lambda>n. \<not> Set_has visited1 n) (region_neighbors region current)"
  define shuffled where "shuffled = fisher_yates (length neighbors - 1) neighbors (fst st)"
  define w where "w = (\<lambda>n. the (walks (region_neighbors region) visited1 k n))"
  have w: "walks (region_neighbors region) visited (Suc k) current = Some m"
    using Suc.prems Suc.hyps(2) by simp
  have k: "k \<noteq> 0"
    using w by (auto split: if_splits)
  have all: "\<forall>n\<in>set neighbors. walks (region_neighbors region) visited1 k n \<noteq> None"
    and m: "m = 1 + sum_list (map w neighbors)"
    using w k
    by (auto simp: Let_def visited1_def neighbors_def w_def list_all_iff comp_def
        split: if_splits)
  have len: "length path1 \<noteq> length cells"
    using Suc.hyps(2) k by (simp add: path1_def)
  have rem: "k = length cells - length path1"
    using Suc.hyps(2) by (simp add: path1_def)
  let ?f = "\<lambda>neighbor s. dfs_visits neighbor cells visited1 path1 region s"
  have unfold: "dfs_visits current cells visited path region st
                = try_each ?f (fst shuffled) path (snd shuffled, snd st + 1)"
    using len
    by (subst dfs_visits.simps)
      (simp add: Let_def path1_def visited1_def neighbors_def shuffled_def)
  have perm: "mset (fst shuffled) = mset neighbors"
    unfolding shuffled_def by (rule fisher_yates_mset)
  have each: "\<not> fst (?f n s) \<and> snd (snd (snd (?f n s))) = snd s + w n"
    if "n \<in> set (fst shuffled)" for n s
  proof -
    have "n \<in> set neighbors"
      using that perm by (metis mset_eq_setD)
    then obtain j where "walks (region_neighbors region) visited1 k n = Some j"
      using all by auto
    then have "walks (region_neighbors region) visited1 (length cells - length path1) n = Some (w n)"
      using rem by (simp add: w_def)
    then show ?thesis
      using Suc.hyps(1) [OF rem, of visited1 n "w n" s] by simp
  qed
  have "\<not> fst (try_each ?f (fst shuffled) path (snd shuffled, snd st + 1))
        \<and> fst (snd (try_each ?f (fst shuffled) path (snd shuffled, snd st + 1))) = path
        \<and> snd (snd (snd (try_each ?f (fst shuffled) path (snd shuffled, snd st + 1))))
            = snd (snd shuffled, snd st + 1) + sum_list (map w (fst shuffled))"
    using each by (rule try_each_exhaust)
  moreover have "sum_list (map w (fst shuffled)) = sum_list (map w neighbors)"
    using perm by (rule sum_list_permuted)
  ultimately show ?case
    unfolding unfold using m by simp
qed

text \<open>
  The request of mode 1 with width 5, height 5, hole density 0.01 and seed \<open>x\<close>:
  \<open>generateLevel\<close> grows a region of \<open>\<lfloor>5 * 5 * 0.99\<rfloor> = 24\<close> cells, the square without the
  cell \<open>(3, 0)\<close>.
\<close>

definition region_5x5 :: IRRegion where
  "region_5x5 =
     \<lparr>rg_cells = [(2, 2), (2, 3), (1, 2), (3, 3), (2, 1), (2, 0), (4, 3), (3, 2), (3, 4), (4, 2),
        (4, 1), (3, 1), (0, 2), (4, 4), (1, 1), (2, 4), (1, 4), (0, 4), (1, 3), (1, 0), (0, 1),
        (0, 0), (0, 3), (4, 0)],
      rg_width = 5, rg_height = 5, rg_minX = 0, rg_maxX = 4, rg_minY = 0, rg_maxY = 4\<rparr>"

text \<open>The neighbours of a cell in that region, by its coordinates.\<close>

definition grid_neighbors :: "cell \<Rightarrow> cell list" where
  "grid_neighbors c =
     filter (\<lambda>n. 0 \<le> fst n \<and> fst n \<le> 4 \<and> 0 \<le> snd n \<and> snd n \<le> 4 \<and> n \<noteq> (3, 0))
       (map (\<lambda>d. (fst c + fst d, snd c + snd d)) [(0, 1), (1, 0), (0, -1), (-1, 0)])"

lemma region_5x5_has:
  "Set_has (rg_cells region_5x5) (a, b) \<longleftrightarrow> 0 \<le> a \<and> a \<le> 4 \<and> 0 \<le> b \<and> b \<le> 4 \<and> (a, b) \<noteq> (3, 0)"
proof
  assume "Set_has (rg_cells region_5x5) (a, b)"
  then show "0 \<le> a \<and> a \<le> 4 \<and> 0 \<le> b \<and> b \<le> 4 \<and> (a, b) \<noteq> (3, 0)"
    unfolding Set_has_def region_5x5_def by auto
next
  assume r: "0 \<le> a \<and> a \<le> 4 \<and> 0 \<le> b \<and> b \<le> 4 \<and> (a, b) \<noteq> (3, 0)"
  have "a = 0 \<or> a = 1 \<or> a = 2 \<or> a = 3 \<or> a = 4"
    using r by arith
  moreover have "b = 0 \<or> b = 1 \<or> b = 2 \<or> b = 3 \<or> b = 4"
    using r by arith
  ultimately show "Set_has (rg_cells region_5x5) (a, b)"
    using r by (elim disjE) (simp_all add: Set_has_def region_5x5_def)
qed

lemma region_5x5_neighbors: "region_neighbors region_5x5 = grid_neighbors"
proof (rule ext)
  fix c
  have "Set_has (rg_cells region_5x5) (fst n + rg_minX region_5x5, snd n + rg_minY region_5x5)
        \<longleftrightarrow> 0 \<le> fst n \<and> fst n \<le> 4 \<and> 0 \<le> snd n \<and> snd n \<le> 4 \<and> n \<noteq> (3, 0)" for n :: cell
    using region_5x5_has [of "fst n" "snd n"] by (cases n) (simp add: region_5x5_def)
  then show "region_neighbors region_5x5 c = grid_neighbors c"
    unfolding region_neighbors_def grid_neighbors_def by presburger
qed

lemma region_5x5_request:
  "generateIRRegion 5 5 (PRNG_new (charCodes ''x'')) (99 / 100)
     = (region_5x5, \<lparr>prng_seed = 120, prng_a = 42126013819\<rparr>)"
  by code_simp

lemma region_5x5_normalized: "normalizeRegion region_5x5 = region_5x5"
  by code_simp

lemma region_5x5_strips: "strip_attempts 3 region_5x5 g = None"
  by code_simp

lemma region_5x5_first_start:
  "take 1 (fst (fisher_yates (length (local_cells region_5x5) - 1) (local_cells region_5x5)
      \<lparr>prng_seed = 120, prng_a = 42126013819\<rparr>)) = [(0, 1)]"
  by code_simp

lemma walks_5x5_down: "walks grid_neighbors [(0, 1)] 23 (0, 2) = Some 13168"
  by code_simp

lemma walks_5x5_right: "walks grid_neighbors [(0, 1)] 23 (1, 1) = Some 11732"
  by code_simp

lemma walks_5x5_up: "walks grid_neighbors [(0, 1)] 23 (0, 0) = Some 13284"
  by code_simp

lemma walks_5x5:
  "walks (region_neighbors region_5x5) []
     (length (local_cells region_5x5) - length ([] :: cell list)) (0, 1) = Some 38185"
proof -
  have len: "length (local_cells region_5x5) - length ([] :: cell list) = Suc 23"
    by (simp add: local_cells_def region_5x5_def)
  have v: "Set_add (0, 1) [] = [(0, 1 :: int) :: cell]"
    by (simp add: Set_add_def Set_has_def)
  have nb: "filter (\<lambda>n. \<not> Set_has [(0, 1)] n) (grid_neighbors (0, 1)) = [(0, 2), (1, 1), (0, 0)]"
    by (simp add: grid_neighbors_def Set_has_def)
  show ?thesis
    unfolding len region_5x5_neighbors walks.simps(2) Let_def v nb
    by (simp add: walks_5x5_down walks_5x5_right walks_5x5_up)
qed

text \<open>
  C9.  The claim is that each traversal of the fallback is cut off under a budget of
  10,000 node visits.  Both copies start from five cells at most
  (\<open>dfsHamiltonianPath_start\<close>, \<open>wf_dfsHamiltonianPath_start\<close>), and \<open>dfs\<close> of
  lib/worker-factory.ts is cut off (\<open>wf_dfs_cut_off\<close>, \<open>wf_dfs_calls_bounded\<close>); \<open>dfs\<close> of
  lib/hamiltonian.ts has no counter.  For the
  request of mode 1 with width 5, height 5, hole density 0.01 and seed \<open>x\<close>, the region
  is the square without the cell \<open>(3, 0)\<close>, strip-and-stitch fails on it, the first start
  cell of the fallback is \<open>(0, 1)\<close>, and the traversal from that cell visits 38,185 cells
  before it reports failure, whatever the generator draws.
\<close>

theorem module_dfs_exceeds_budget:
  "generateIRRegion 5 5 (PRNG_new (charCodes ''x'')) (99 / 100)
     = (region_5x5, \<lparr>prng_seed = 120, prng_a = 42126013819\<rparr>)
   \<and> normalizeRegion region_5x5 = region_5x5
   \<and> strip_attempts 3 region_5x5 g = None
   \<and> take 1 (fst (fisher_yates (length (local_cells region_5x5) - 1) (local_cells region_5x5)
        \<lparr>prng_seed = 120, prng_a = 42126013819\<rparr>)) = [(0, 1)]
   \<and> \<not> fst (dfs (0, 1) (local_cells region_5x5) [] [] region_5x5 g)
   \<and> snd (snd (snd (dfs_visits (0, 1) (local_cells region_5x5) [] [] region_5x5 (g, 0)))) = 38185
   \<and> MAX_DFS_CALLS < 38185"
proof -
  have v: "\<not> fst (dfs_visits (0, 1) (local_cells region_5x5) [] [] region_5x5 (g, 0))
      \<and> fst (snd (dfs_visits (0, 1) (local_cells region_5x5) [] [] region_5x5 (g, 0))) = []
      \<and> snd (snd (snd (dfs_visits (0, 1) (local_cells region_5x5) [] [] region_5x5 (g, 0))))
          = snd (g, 0 :: int) + 38185"
    using walks_5x5 by (rule walks_dfs_visits)
  have "fst (dfs (0, 1) (local_cells region_5x5) [] [] region_5x5 g)
        = fst (dfs_visits (0, 1) (local_cells region_5x5) [] [] region_5x5 (g, 0))"
    using dfs_visits_dfs [of "(0, 1)" "local_cells region_5x5" "[]" "[]" region_5x5 g 0]
    by (metis fst_conv)
  then show ?thesis
    using v region_5x5_request region_5x5_normalized region_5x5_strips region_5x5_first_start
    by (simp add: MAX_DFS_CALLS_def)
qed

section \<open>Determinism\<close>

lemma wf_try_starts_counter:
  "(fst (wf_try_starts starts cells region (g, c)), fst (snd (wf_try_starts starts cells region (g, c))))
   = (fst (wf_try_starts starts cells region (g, c')), fst (snd (wf_try_starts starts cells region (g, c'))))"
  by (cases starts) (simp_all add: Let_def)

lemma wf_dfsHamiltonianPath_counter:
  "(fst (wf_dfsHamiltonianPath region (g, c)), fst (snd (wf_dfsHamiltonianPath region (g, c))))
   = (fst (wf_dfsHamiltonianPath region (g, c')), fst (snd (wf_dfsHamiltonianPath region (g, c'))))"
  using wf_try_starts_counter by (simp add: wf_dfsHamiltonianPath_def Let_def)

lemma wf_attempts_counter:
  "(fst (wf_attempts n region (g, c)), fst (snd (wf_attempts n region (g, c))))
   = (fst (wf_attempts n region (g, c')), fst (snd (wf_attempts n region (g, c'))))"
proof (induction n arbitrary: g c c')
  case 0
  then show ?case by simp
next
  case (Suc n)
  obtain hp g1 c1 where r: "wf_dfsHamiltonianPath region (g, c) = (hp, g1, c1)"
    by (cases "wf_dfsHamiltonianPath region (g, c)")
  obtain hp' g1' c1' where r': "wf_dfsHamiltonianPath region (g, c') = (hp', g1', c1')"
    by (cases "wf_dfsHamiltonianPath region (g, c')")
  have same: "hp' = hp" "g1' = g1"
    using wf_dfsHamiltonianPath_counter [of region g c c'] r r' by simp_all
  show ?case
    using Suc.IH [of g1 c1 c1'] by (simp add: r r' same Let_def)
qed

lemma generateSimpleLevel_fields:
  assumes "p_m p = p_m q" "p_w p = p_w q" "p_h p = p_h q" "p_hd p = p_hd q" "p_seed p = p_seed q"
  shows "map_sum id (\<lambda>level. level\<lparr>lv_params := q\<rparr>) (generateSimpleLevel p prng)
    = generateSimpleLevel q prng"
  by (simp add: generateSimpleLevel_def assms Let_def split: sum.splits)

text \<open>
  C1.  The level is a function of the mode, width, height, hole density and seed of the
  request (the colour count is not read).  Two requests that agree on them get the same
  level, field by field, but for \<open>params\<close>, which repeats the request; so a request
  generated twice gets the same level twice.  This holds for the module and for the copy
  of lib/worker-factory.ts, there whatever value earlier requests have left in the call
  counter of the worker.  The generator is built from the seed alone and each draw is a
  function of its state: the translation of the generation path takes no clock and no
  source of entropy.
\<close>

theorem generateLevel_deterministic:
  assumes "p_m p = p_m q" and "p_w p = p_w q" and "p_h p = p_h q" and "p_hd p = p_hd q"
    and "p_k p = p_k q" and "p_seed p = p_seed q"
  shows "map_sum id (\<lambda>level. level\<lparr>lv_params := q\<rparr>) (generateLevel p) = generateLevel q
    \<and> map_sum id (\<lambda>level. level\<lparr>lv_params := q\<rparr>) (fst (wf_generateLevel p c))
        = fst (wf_generateLevel q c')"
proof
  show "map_sum id (\<lambda>level. level\<lparr>lv_params := q\<rparr>) (generateLevel p) = generateLevel q"
    using generateSimpleLevel_fields [OF assms(1-4,6)]
    by (simp add: generateLevel_def assms Let_def Uint8Array_new_def)
next
  define w where "w = num_or (p_w q) 10"
  define h where "h = num_or (p_h q) 10"
  define rg where "rg = wf_generateIRRegion w h
    (wf_PRNG_new (str_or (p_seed q) (charCodes ''default''))) (1 - num_or (p_hd q) (1 / 10))"
  define normalized where "normalized = wf_normalizeRegion (fst rg)"
  have hp: "fst (wf_generateHamiltonianPath normalized (snd rg, c) 3)
      = fst (wf_generateHamiltonianPath normalized (snd rg, c') 3)"
    "fst (snd (wf_generateHamiltonianPath normalized (snd rg, c) 3))
      = fst (snd (wf_generateHamiltonianPath normalized (snd rg, c') 3))"
    using wf_attempts_counter [of 3 normalized "snd rg" c c']
    by (simp_all add: wf_generateHamiltonianPath_def)
  show "map_sum id (\<lambda>level. level\<lparr>lv_params := q\<rparr>) (fst (wf_generateLevel p c))
        = fst (wf_generateLevel q c')"
    using generateSimpleLevel_fields [OF assms(1-4,6)] hp
    by (simp add: wf_generateLevel_def assms Let_def Uint8Array_new_def wf_generateSimpleLevel_eq
        w_def h_def rg_def normalized_def)
qed

theorem generateLevel_deterministic_witness:
  "p_m request_3x1 = p_m (request_3x1\<lparr>p_v := Some (Num 2), p_diff := Some (charCodes ''hard'')\<rparr>)
   \<and> p_w request_3x1 = p_w (request_3x1\<lparr>p_v := Some (Num 2), p_diff := Some (charCodes ''hard'')\<rparr>)
   \<and> p_h request_3x1 = p_h (request_3x1\<lparr>p_v := Some (Num 2), p_diff := Some (charCodes ''hard'')\<rparr>)
   \<and> p_hd request_3x1 = p_hd (request_3x1\<lparr>p_v := Some (Num 2), p_diff := Some (charCodes ''hard'')\<rparr>)
   \<and> p_k request_3x1 = p_k (request_3x1\<lparr>p_v := Some (Num 2), p_diff := Some (charCodes ''hard'')\<rparr>)
   \<and> p_seed request_3x1 = p_seed (request_3x1\<lparr>p_v := Some (Num 2), p_diff := Some (charCodes ''hard'')\<rparr>)
   \<and> map_sum id (\<lambda>level. level\<lparr>lv_params := request_3x1\<lparr>p_v := Some (Num 2),
          p_diff := Some (charCodes ''hard'')\<rparr>\<rparr>) (generateLevel request_3x1)
       = generateLevel (request_3x1\<lparr>p_v := Some (Num 2), p_diff := Some (charCodes ''hard'')\<rparr>)
   \<and> map_sum id (\<lambda>level. level\<lparr>lv_params := request_3x1\<lparr>p_v := Some (Num 2),
          p_diff := Some (charCodes ''hard'')\<rparr>\<rparr>) (fst (wf_generateLevel request_3x1 0))
       = fst (wf_generateLevel (request_3x1\<lparr>p_v := Some (Num 2),
           p_diff := Some (charCodes ''hard'')\<rparr>) 7)"
  using generateLevel_deterministic [of request_3x1
      "request_3x1\<lparr>p_v := Some (Num 2), p_diff := Some (charCodes ''hard'')\<rparr>" 0 7]
  by simp

section \<open>Share codes (lib/seed.ts)\<close>

text \<open>
  The conversions between numbers and strings are those of the language.  For the
  integers of \<open>v\<close>, \<open>m\<close>, \<open>w\<close>, \<open>h\<close> and \<open>k\<close> they are written out: the decimal digits
  that a template literal prints (exactly so for the safe integers, those below \<open>2^53\<close> in
  absolute value), and \<open>parseInt(value, 10)\<close>, which skips white space,
  reads a sign and then the longest run of digits, and is \<open>NaN\<close> when there is none.
  For the fraction \<open>hd\<close>, the printing of a number and \<open>parseFloat\<close> are parameters
  of the two functions.
\<close>

definition is_digit :: "int \<Rightarrow> bool" where
  "is_digit c \<longleftrightarrow> 48 \<le> c \<and> c \<le> 57"

definition is_space :: "int \<Rightarrow> bool" where
  "is_space c \<longleftrightarrow>
     c \<in> {9, 10, 11, 12, 13, 32, 160, 5760, 8232, 8233, 8239, 8287, 12288, 65279}
     \<or> (8192 \<le> c \<and> c \<le> 8202)"

definition digits_value :: "jsstring \<Rightarrow> int" where
  "digits_value ds = foldl (\<lambda>acc d. acc * 10 + (d - 48)) 0 ds"

definition parseInt10 :: "jsstring \<Rightarrow> int number" where
  "parseInt10 s =
     (let s1 = dropWhile is_space s;
          negative = (s1 \<noteq> [] \<and> hd s1 = 45);
          s2 = (if s1 \<noteq> [] \<and> (hd s1 = 45 \<or> hd s1 = 43) then tl s1 else s1);
          ds = takeWhile is_digit s2
      in if ds = [] then NaN
         else Num (if negative then - digits_value ds else digits_value ds))"

function decimal :: "nat \<Rightarrow> jsstring" where
  "decimal n = (if n < 10 then [48 + int n] else decimal (n div 10) @ [48 + int (n mod 10)])"
  by pat_completeness auto
termination
  by (relation "measure id") auto

declare decimal.simps [simp del]

definition intToString :: "int number \<Rightarrow> jsstring" where
  "intToString x =
     (case x of
        NaN \<Rightarrow> charCodes ''NaN''
      | Num n \<Rightarrow> if n < 0 then 45 # decimal (nat (- n)) else decimal (nat n))"

text \<open>\<open>str.split(sep)\<close> and \<open>parts.join(sep)\<close> for a separator of one character.\<close>

fun split :: "int \<Rightarrow> jsstring \<Rightarrow> jsstring list" where
  "split sep [] = [[]]"
| "split sep (c # cs) =
     (if c = sep then [] # split sep cs
      else (case split sep cs of p # ps \<Rightarrow> (c # p) # ps | [] \<Rightarrow> [[c]]))"

fun join :: "int \<Rightarrow> jsstring list \<Rightarrow> jsstring" where
  "join sep [] = []"
| "join sep [p] = p"
| "join sep (p # q # ps) = p @ sep # join sep (q # ps)"

definition empty_params :: GameParams where
  "empty_params =
     \<lparr>p_v = None, p_m = None, p_w = None, p_h = None, p_k = None, p_hd = None, p_diff = None,
      p_seed = None\<rparr>"

text \<open>
  The body of the loop of \<open>parseShareCode\<close>.  \<open>[key, value] = part.split('=')\<close> takes the
  first two pieces; \<open>value\<close> is undefined when there is one piece only.
\<close>

definition apply_part :: "(jsstring \<Rightarrow> rat number) \<Rightarrow> jsstring \<Rightarrow> GameParams \<Rightarrow> GameParams" where
  "apply_part parseFloat part params =
     (let pieces = split 61 part;
          key = pieces ! 0
      in if key = [] \<or> length pieces < 2 \<or> pieces ! 1 = [] then params
         else
           (let value = pieces ! 1
            in if key = charCodes ''v'' then params\<lparr>p_v := Some (parseInt10 value)\<rparr>
               else if key = charCodes ''m'' then params\<lparr>p_m := Some (parseInt10 value)\<rparr>
               else if key = charCodes ''w'' then params\<lparr>p_w := Some (parseInt10 value)\<rparr>
               else if key = charCodes ''h'' then params\<lparr>p_h := Some (parseInt10 value)\<rparr>
               else if key = charCodes ''k'' then params\<lparr>p_k := Some (parseInt10 value)\<rparr>
               else if key = charCodes ''hd'' then params\<lparr>p_hd := Some (parseFloat value)\<rparr>
               else if key = charCodes ''diff'' then params\<lparr>p_diff := Some value\<rparr>
               else if key = charCodes ''seed'' then params\<lparr>p_seed := Some value\<rparr>
               else params))"

definition parseShareCode :: "(jsstring \<Rightarrow> rat number) \<Rightarrow> jsstring \<Rightarrow> GameParams" where
  "parseShareCode parseFloat hash =
     (if hash = [] \<or> hd hash \<noteq> 35 then empty_params
      else fold (apply_part parseFloat) (split 59 (tl hash)) empty_params)"

definition serializeShareCode :: "(rat number \<Rightarrow> jsstring) \<Rightarrow> GameParams \<Rightarrow> jsstring" where
  "serializeShareCode numberToString params =
     (let parts =
            (case p_v params of None \<Rightarrow> [] | Some x \<Rightarrow> [charCodes ''v='' @ intToString x])
          @ (case p_m params of None \<Rightarrow> [] | Some x \<Rightarrow> [charCodes ''m='' @ intToString x])
          @ (case p_w params of None \<Rightarrow> [] | Some x \<Rightarrow> [charCodes ''w='' @ intToString x])
          @ (case p_h params of None \<Rightarrow> [] | Some x \<Rightarrow> [charCodes ''h='' @ intToString x])
          @ (case p_k params of None \<Rightarrow> [] | Some x \<Rightarrow> [charCodes ''k='' @ intToString x])
          @ (case p_hd params of None \<Rightarrow> [] | Some x \<Rightarrow> [charCodes ''hd='' @ numberToString x])
          @ (case p_diff params of None \<Rightarrow> [] | Some x \<Rightarrow> [charCodes ''diff='' @ x])
          @ (case p_seed params of None \<Rightarrow> [] | Some x \<Rightarrow> [charCodes ''seed='' @ x])
      in 35 # join 59 parts)"

subsection \<open>Integers survive printing and parsing\<close>

lemma decimal_digits: "decimal n \<noteq> [] \<and> (\<forall>c\<in>set (decimal n). is_digit c)"
proof (induction n rule: decimal.induct)
  case (1 n)
  show ?case
  proof (cases "n < 10")
    case True
    then show ?thesis by (subst (1 2) decimal.simps) (simp add: is_digit_def)
  next
    case False
    have "n mod 10 < 10" by simp
    then have "is_digit (48 + int (n mod 10))" unfolding is_digit_def by linarith
    then show ?thesis
      using False 1 by (subst (1 2) decimal.simps) simp
  qed
qed

lemma decimal_value: "digits_value (decimal n) = int n"
proof (induction n rule: decimal.induct)
  case (1 n)
  show ?case
  proof (cases "n < 10")
    case True
    then show ?thesis by (subst decimal.simps) (simp add: digits_value_def)
  next
    case False
    then have "digits_value (decimal n) = digits_value (decimal (n div 10)) * 10 + int (n mod 10)"
      by (subst decimal.simps) (simp add: digits_value_def)
    also have "\<dots> = int (n div 10) * 10 + int (n mod 10)"
      using 1 False by simp
    also have "\<dots> = int n"
      by (simp add: zdiv_int zmod_int)
    finally show ?thesis .
  qed
qed

lemma digit_not_space: "is_digit c \<Longrightarrow> \<not> is_space c \<and> c \<noteq> 45 \<and> c \<noteq> 43 \<and> c \<noteq> 59 \<and> c \<noteq> 61"
  by (auto simp: is_digit_def is_space_def)

lemma parseInt10_digits:
  assumes "ds \<noteq> []" "\<forall>c\<in>set ds. is_digit c"
  shows "parseInt10 ds = Num (digits_value ds)" "parseInt10 (45 # ds) = Num (- digits_value ds)"
proof -
  obtain c cs where d: "ds = c # cs" using assms(1) by (cases ds) auto
  have c: "is_digit c" using assms(2) by (simp add: d)
  have tw: "takeWhile is_digit ds = ds"
    using assms(2) by (simp add: takeWhile_eq_all_conv)
  have dw: "dropWhile is_space ds = ds"
    using digit_not_space [OF c] by (simp add: d)
  have hd: "hd ds \<noteq> 45" "hd ds \<noteq> 43"
    using digit_not_space [OF c] by (simp_all add: d)
  show "parseInt10 ds = Num (digits_value ds)"
    unfolding parseInt10_def Let_def dw using hd assms(1) by (simp add: tw)
  have dw': "dropWhile is_space (45 # ds) = 45 # ds"
    by (simp add: is_space_def)
  show "parseInt10 (45 # ds) = Num (- digits_value ds)"
    unfolding parseInt10_def Let_def dw' using assms(1) by (simp add: tw)
qed

lemma parseInt10_decimal: "parseInt10 (decimal n) = Num (int n)"
  using parseInt10_digits(1) [of "decimal n"] decimal_digits [of n] decimal_value [of n] by simp

lemma parseInt10_minus_decimal: "parseInt10 (45 # decimal n) = Num (- int n)"
  using parseInt10_digits(2) [of "decimal n"] decimal_digits [of n] decimal_value [of n] by simp

lemma parseInt10_intToString: "parseInt10 (intToString x) = x"
proof (cases x)
  case NaN
  have "parseInt10 (charCodes ''NaN'') = NaN"
    by (simp add: parseInt10_def charCodes_def is_space_def is_digit_def)
  then show ?thesis by (simp add: NaN intToString_def)
next
  case (Num n)
  show ?thesis
  proof (cases "n < 0")
    case True
    have "parseInt10 (45 # decimal (nat (- n))) = Num (- int (nat (- n)))"
      by (rule parseInt10_minus_decimal)
    then show ?thesis using True by (simp add: Num intToString_def)
  next
    case False
    then show ?thesis by (simp add: Num intToString_def parseInt10_decimal)
  qed
qed

lemma intToString_text: "intToString x \<noteq> [] \<and> 59 \<notin> set (intToString x) \<and> 61 \<notin> set (intToString x)"
proof (cases x)
  case NaN
  then show ?thesis by (simp add: intToString_def charCodes_def)
next
  case (Num n)
  have "c \<noteq> 59 \<and> c \<noteq> 61" if "c \<in> set (decimal k)" for c k
    using that decimal_digits [of k] digit_not_space [of c] by simp
  then show ?thesis
    using decimal_digits by (auto simp: Num intToString_def)
qed

subsection \<open>Splitting what was joined\<close>

lemma split_no_sep: "sep \<notin> set p \<Longrightarrow> split sep p = [p]"
  by (induction p) auto

lemma split_append_sep: "sep \<notin> set p \<Longrightarrow> split sep (p @ sep # rest) = p # split sep rest"
  by (induction p) auto

lemma split_join:
  "parts \<noteq> [] \<Longrightarrow> \<forall>p\<in>set parts. sep \<notin> set p \<Longrightarrow> split sep (join sep parts) = parts"
proof (induction parts rule: join.induct)
  case (1 sep)
  then show ?case by simp
next
  case (2 sep p)
  then show ?case by (simp add: split_no_sep)
next
  case (3 sep p q ps)
  then show ?case by (simp add: split_append_sep)
qed

text \<open>A text that can stand as a value in a share code.\<close>

definition valid_text :: "jsstring \<Rightarrow> bool" where
  "valid_text s \<longleftrightarrow> s \<noteq> [] \<and> 59 \<notin> set s \<and> 61 \<notin> set s"

lemma valid_intToString: "valid_text (intToString x)"
  using intToString_text [of x] by (simp add: valid_text_def)

lemma split_key_value:
  assumes "61 \<notin> set key" "valid_text v"
  shows "split 61 (key @ 61 # v) = [key, v]"
  using assms by (simp add: split_append_sep split_no_sep valid_text_def)

lemma apply_part_v:
  "valid_text s \<Longrightarrow> apply_part pf (charCodes ''v='' @ s) params = params\<lparr>p_v := Some (parseInt10 s)\<rparr>"
  using split_key_value [of "charCodes ''v''" s]
  by (simp add: apply_part_def charCodes_def valid_text_def)

lemma apply_part_m:
  "valid_text s \<Longrightarrow> apply_part pf (charCodes ''m='' @ s) params = params\<lparr>p_m := Some (parseInt10 s)\<rparr>"
  using split_key_value [of "charCodes ''m''" s]
  by (simp add: apply_part_def charCodes_def valid_text_def)

lemma apply_part_w:
  "valid_text s \<Longrightarrow> apply_part pf (charCodes ''w='' @ s) params = params\<lparr>p_w := Some (parseInt10 s)\<rparr>"
  using split_key_value [of "charCodes ''w''" s]
  by (simp add: apply_part_def charCodes_def valid_text_def)

lemma apply_part_h:
  "valid_text s \<Longrightarrow> apply_part pf (charCodes ''h='' @ s) params = params\<lparr>p_h := Some (parseInt10 s)\<rparr>"
  using split_key_value [of "charCodes ''h''" s]
  by (simp add: apply_part_def charCodes_def valid_text_def)

lemma apply_part_k:
  "valid_text s \<Longrightarrow> apply_part pf (charCodes ''k='' @ s) params = params\<lparr>p_k := Some (parseInt10 s)\<rparr>"
  using split_key_value [of "charCodes ''k''" s]
  by (simp add: apply_part_def charCodes_def valid_text_def)

lemma apply_part_hd:
  "valid_text s \<Longrightarrow> apply_part pf (charCodes ''hd='' @ s) params = params\<lparr>p_hd := Some (pf s)\<rparr>"
  using split_key_value [of "charCodes ''hd''" s]
  by (simp add: apply_part_def charCodes_def valid_text_def)

lemma apply_part_diff:
  "valid_text s \<Longrightarrow> apply_part pf (charCodes ''diff='' @ s) params = params\<lparr>p_diff := Some s\<rparr>"
  using split_key_value [of "charCodes ''diff''" s]
  by (simp add: apply_part_def charCodes_def valid_text_def)

lemma apply_part_seed:
  "valid_text s \<Longrightarrow> apply_part pf (charCodes ''seed='' @ s) params = params\<lparr>p_seed := Some s\<rparr>"
  using split_key_value [of "charCodes ''seed''" s]
  by (simp add: apply_part_def charCodes_def valid_text_def)

lemma apply_part_empty: "apply_part pf [] params = params"
  by (simp add: apply_part_def)

subsection \<open>Round trip and order of the parts\<close>

definition small_int :: "int number option \<Rightarrow> bool" where
  "small_int x = (case x of Some (Num n) \<Rightarrow> \<bar>n\<bar> < 2 ^ 53 | _ \<Rightarrow> True)"

definition text_ok :: "jsstring option \<Rightarrow> bool" where
  "text_ok x = (case x of Some s \<Rightarrow> valid_text s | None \<Rightarrow> True)"

text \<open>
  The parameters that a share code carries faithfully: safe integers (or \<open>NaN\<close>), which
  print as their decimal digits, a hole density that the conversions of the language give
  back, and texts that are not empty and hold neither the separator \<open>;\<close> nor \<open>=\<close>.
\<close>

definition valid_params ::
    "(rat number \<Rightarrow> jsstring) \<Rightarrow> (jsstring \<Rightarrow> rat number) \<Rightarrow> GameParams \<Rightarrow> bool" where
  "valid_params numberToString parseFloat p =
     (small_int (p_v p) \<and> small_int (p_m p) \<and> small_int (p_w p) \<and> small_int (p_h p)
      \<and> small_int (p_k p)
      \<and> (case p_hd p of
            Some x \<Rightarrow> parseFloat (numberToString x) = x \<and> valid_text (numberToString x)
          | None \<Rightarrow> True)
      \<and> text_ok (p_diff p) \<and> text_ok (p_seed p))"

datatype field = F_v | F_m | F_w | F_h | F_k | F_hd | F_diff | F_seed

text \<open>The field that a part of a share code sets, if it sets one.\<close>

definition part_field :: "jsstring \<Rightarrow> field option" where
  "part_field part =
     (let pieces = split 61 part;
          key = pieces ! 0
      in if key = [] \<or> length pieces < 2 \<or> pieces ! 1 = [] then None
         else if key = charCodes ''v'' then Some F_v
         else if key = charCodes ''m'' then Some F_m
         else if key = charCodes ''w'' then Some F_w
         else if key = charCodes ''h'' then Some F_h
         else if key = charCodes ''k'' then Some F_k
         else if key = charCodes ''hd'' then Some F_hd
         else if key = charCodes ''diff'' then Some F_diff
         else if key = charCodes ''seed'' then Some F_seed
         else None)"

fun set_field :: "(jsstring \<Rightarrow> rat number) \<Rightarrow> field \<Rightarrow> jsstring \<Rightarrow> GameParams \<Rightarrow> GameParams" where
  "set_field pf F_v value params = params\<lparr>p_v := Some (parseInt10 value)\<rparr>"
| "set_field pf F_m value params = params\<lparr>p_m := Some (parseInt10 value)\<rparr>"
| "set_field pf F_w value params = params\<lparr>p_w := Some (parseInt10 value)\<rparr>"
| "set_field pf F_h value params = params\<lparr>p_h := Some (parseInt10 value)\<rparr>"
| "set_field pf F_k value params = params\<lparr>p_k := Some (parseInt10 value)\<rparr>"
| "set_field pf F_hd value params = params\<lparr>p_hd := Some (pf value)\<rparr>"
| "set_field pf F_diff value params = params\<lparr>p_diff := Some value\<rparr>"
| "set_field pf F_seed value params = params\<lparr>p_seed := Some value\<rparr>"

lemma apply_part_field:
  "apply_part pf part params =
     (case part_field part of None \<Rightarrow> params | Some f \<Rightarrow> set_field pf f (split 61 part ! 1) params)"
  by (simp add: apply_part_def part_field_def Let_def)

lemma set_field_commute:
  "f \<noteq> f' \<Longrightarrow> set_field pf f v (set_field pf f' v' params) = set_field pf f' v' (set_field pf f v params)"
  by (cases f; cases f'; simp)

lemma apply_part_commute:
  assumes "part_field x \<noteq> part_field y \<or> x = y"
  shows "apply_part pf x \<circ> apply_part pf y = apply_part pf y \<circ> apply_part pf x"
proof (cases "x = y")
  case True
  then show ?thesis by simp
next
  case False
  then have ne: "part_field x \<noteq> part_field y" using assms by simp
  show ?thesis
  proof (rule ext)
    fix params
    show "(apply_part pf x \<circ> apply_part pf y) params = (apply_part pf y \<circ> apply_part pf x) params"
      using ne by (auto simp: apply_part_field set_field_commute split: option.splits)
  qed
qed

lemma fold_parts_split:
  assumes "\<forall>p\<in>set parts. 59 \<notin> set p"
  shows "fold (apply_part pf) (split 59 (join 59 parts)) params = fold (apply_part pf) parts params"
proof (cases "parts = []")
  case True
  then show ?thesis by (simp add: apply_part_empty)
next
  case False
  then show ?thesis using assms by (simp add: split_join)
qed

lemma parse_joined:
  assumes "\<forall>p\<in>set parts. 59 \<notin> set p"
  shows "parseShareCode pf (35 # join 59 parts) = fold (apply_part pf) parts empty_params"
  using fold_parts_split [OF assms] by (simp add: parseShareCode_def)

lemma fold_parts_permuted:
  assumes "mset parts = mset parts'" and "distinct (List.map_filter part_field parts)"
  shows "fold (apply_part pf) parts = fold (apply_part pf) parts'"
proof (rule fold_multiset_equiv [OF _ assms(1)])
  fix x y assume x: "x \<in> set parts" and y: "y \<in> set parts"
  have "part_field x \<noteq> part_field y \<or> x = y \<or> part_field x = None"
  proof (cases "part_field x = part_field y \<and> part_field x \<noteq> None")
    case False
    then show ?thesis by auto
  next
    case True
    let ?eff = "filter (\<lambda>p. part_field p \<noteq> None) parts"
    have "distinct (map (the \<circ> part_field) ?eff)"
      using assms(2) by (simp add: List.map_filter_def)
    then have "inj_on (the \<circ> part_field) (set ?eff)"
      by (simp add: distinct_map)
    moreover have "part_field x \<noteq> None" "part_field y \<noteq> None"
      using True by metis+
    then have "x \<in> set ?eff" "y \<in> set ?eff"
      using x y by simp_all
    moreover have "(the \<circ> part_field) x = (the \<circ> part_field) y"
      using True by simp
    ultimately have "x = y" by (meson inj_onD)
    then show ?thesis by simp
  qed
  then show "apply_part pf x \<circ> apply_part pf y = apply_part pf y \<circ> apply_part pf x"
  proof (elim disjE)
    assume "part_field x = None"
    then have "apply_part pf x = id"
      by (intro ext) (simp add: apply_part_field)
    then show ?thesis by simp
  qed (simp_all add: apply_part_commute)
qed

lemma key_no_separator:
  "59 \<notin> set (charCodes ''v='')" "59 \<notin> set (charCodes ''m='')" "59 \<notin> set (charCodes ''w='')"
  "59 \<notin> set (charCodes ''h='')" "59 \<notin> set (charCodes ''k='')" "59 \<notin> set (charCodes ''hd='')"
  "59 \<notin> set (charCodes ''diff='')" "59 \<notin> set (charCodes ''seed='')"
  by (simp_all add: charCodes_def)

lemma fold_part_v:
  assumes "p_v q = None"
  shows "fold (apply_part pf) (case x of None \<Rightarrow> [] | Some n \<Rightarrow> [charCodes ''v='' @ intToString n]) q
         = q\<lparr>p_v := x\<rparr>"
  using assms by (cases x) (simp_all add: apply_part_v valid_intToString parseInt10_intToString)

lemma fold_part_m:
  assumes "p_m q = None"
  shows "fold (apply_part pf) (case x of None \<Rightarrow> [] | Some n \<Rightarrow> [charCodes ''m='' @ intToString n]) q
         = q\<lparr>p_m := x\<rparr>"
  using assms by (cases x) (simp_all add: apply_part_m valid_intToString parseInt10_intToString)

lemma fold_part_w:
  assumes "p_w q = None"
  shows "fold (apply_part pf) (case x of None \<Rightarrow> [] | Some n \<Rightarrow> [charCodes ''w='' @ intToString n]) q
         = q\<lparr>p_w := x\<rparr>"
  using assms by (cases x) (simp_all add: apply_part_w valid_intToString parseInt10_intToString)

lemma fold_part_h:
  assumes "p_h q = None"
  shows "fold (apply_part pf) (case x of None \<Rightarrow> [] | Some n \<Rightarrow> [charCodes ''h='' @ intToString n]) q
         = q\<lparr>p_h := x\<rparr>"
  using assms by (cases x) (simp_all add: apply_part_h valid_intToString parseInt10_intToString)

lemma fold_part_k:
  assumes "p_k q = None"
  shows "fold (apply_part pf) (case x of None \<Rightarrow> [] | Some n \<Rightarrow> [charCodes ''k='' @ intToString n]) q
         = q\<lparr>p_k := x\<rparr>"
  using assms by (cases x) (simp_all add: apply_part_k valid_intToString parseInt10_intToString)

lemma fold_part_hd:
  assumes "p_hd q = None"
    and "case x of Some y \<Rightarrow> pf (ns y) = y \<and> valid_text (ns y) | None \<Rightarrow> True"
  shows "fold (apply_part pf) (case x of None \<Rightarrow> [] | Some y \<Rightarrow> [charCodes ''hd='' @ ns y]) q
         = q\<lparr>p_hd := x\<rparr>"
  using assms by (cases x) (simp_all add: apply_part_hd)

lemma fold_part_diff:
  assumes "p_diff q = None" and "text_ok x"
  shows "fold (apply_part pf) (case x of None \<Rightarrow> [] | Some s \<Rightarrow> [charCodes ''diff='' @ s]) q
         = q\<lparr>p_diff := x\<rparr>"
  using assms by (cases x) (simp_all add: apply_part_diff text_ok_def)

lemma fold_part_seed:
  assumes "p_seed q = None" and "text_ok x"
  shows "fold (apply_part pf) (case x of None \<Rightarrow> [] | Some s \<Rightarrow> [charCodes ''seed='' @ s]) q
         = q\<lparr>p_seed := x\<rparr>"
  using assms by (cases x) (simp_all add: apply_part_seed text_ok_def)

lemma parseShareCode_serializeShareCode:
  assumes "valid_params ns pf p"
  shows "parseShareCode pf (serializeShareCode ns p) = p"
proof -
  define pv where "pv = (case p_v p of None \<Rightarrow> [] | Some x \<Rightarrow> [charCodes ''v='' @ intToString x])"
  define pm where "pm = (case p_m p of None \<Rightarrow> [] | Some x \<Rightarrow> [charCodes ''m='' @ intToString x])"
  define pw where "pw = (case p_w p of None \<Rightarrow> [] | Some x \<Rightarrow> [charCodes ''w='' @ intToString x])"
  define ph where "ph = (case p_h p of None \<Rightarrow> [] | Some x \<Rightarrow> [charCodes ''h='' @ intToString x])"
  define pk where "pk = (case p_k p of None \<Rightarrow> [] | Some x \<Rightarrow> [charCodes ''k='' @ intToString x])"
  define phd where "phd = (case p_hd p of None \<Rightarrow> [] | Some x \<Rightarrow> [charCodes ''hd='' @ ns x])"
  define pdiff where "pdiff = (case p_diff p of None \<Rightarrow> [] | Some x \<Rightarrow> [charCodes ''diff='' @ x])"
  define pseed where "pseed = (case p_seed p of None \<Rightarrow> [] | Some x \<Rightarrow> [charCodes ''seed='' @ x])"
  note parts = pv_def pm_def pw_def ph_def pk_def phd_def pdiff_def pseed_def
  have hd_ok: "case p_hd p of Some y \<Rightarrow> pf (ns y) = y \<and> valid_text (ns y) | None \<Rightarrow> True"
    and diff_ok: "text_ok (p_diff p)" and seed_ok: "text_ok (p_seed p)"
    using assms by (simp_all add: valid_params_def)
  have int_ok: "59 \<notin> set (intToString x)" for x
    using intToString_text [of x] by simp
  have "\<forall>part\<in>set pv. 59 \<notin> set part" "\<forall>part\<in>set pm. 59 \<notin> set part"
    "\<forall>part\<in>set pw. 59 \<notin> set part" "\<forall>part\<in>set ph. 59 \<notin> set part"
    "\<forall>part\<in>set pk. 59 \<notin> set part"
    by (auto simp: parts key_no_separator int_ok split: option.splits)
  moreover have "\<forall>part\<in>set phd. 59 \<notin> set part"
    using hd_ok by (auto simp: parts key_no_separator valid_text_def split: option.splits)
  moreover have "\<forall>part\<in>set pdiff. 59 \<notin> set part" "\<forall>part\<in>set pseed. 59 \<notin> set part"
    using diff_ok seed_ok
    by (auto simp: parts key_no_separator valid_text_def text_ok_def split: option.splits)
  ultimately have no_sep: "\<forall>part\<in>set (pv @ pm @ pw @ ph @ pk @ phd @ pdiff @ pseed). 59 \<notin> set part"
    by auto
  have ser: "serializeShareCode ns p = 35 # join 59 (pv @ pm @ pw @ ph @ pk @ phd @ pdiff @ pseed)"
    by (simp add: serializeShareCode_def parts)
  define q1 where "q1 = empty_params\<lparr>p_v := p_v p\<rparr>"
  define q2 where "q2 = q1\<lparr>p_m := p_m p\<rparr>"
  define q3 where "q3 = q2\<lparr>p_w := p_w p\<rparr>"
  define q4 where "q4 = q3\<lparr>p_h := p_h p\<rparr>"
  define q5 where "q5 = q4\<lparr>p_k := p_k p\<rparr>"
  define q6 where "q6 = q5\<lparr>p_hd := p_hd p\<rparr>"
  define q7 where "q7 = q6\<lparr>p_diff := p_diff p\<rparr>"
  define q8 where "q8 = q7\<lparr>p_seed := p_seed p\<rparr>"
  note qs = q1_def q2_def q3_def q4_def q5_def q6_def q7_def q8_def
  have s1: "fold (apply_part pf) pv empty_params = q1"
    unfolding pv_def q1_def by (rule fold_part_v) (simp add: empty_params_def)
  have s2: "fold (apply_part pf) pm q1 = q2"
    unfolding pm_def q2_def by (rule fold_part_m) (simp add: qs empty_params_def)
  have s3: "fold (apply_part pf) pw q2 = q3"
    unfolding pw_def q3_def by (rule fold_part_w) (simp add: qs empty_params_def)
  have s4: "fold (apply_part pf) ph q3 = q4"
    unfolding ph_def q4_def by (rule fold_part_h) (simp add: qs empty_params_def)
  have s5: "fold (apply_part pf) pk q4 = q5"
    unfolding pk_def q5_def by (rule fold_part_k) (simp add: qs empty_params_def)
  have s6: "fold (apply_part pf) phd q5 = q6"
    unfolding phd_def q6_def by (rule fold_part_hd) (simp_all add: qs empty_params_def hd_ok)
  have s7: "fold (apply_part pf) pdiff q6 = q7"
    unfolding pdiff_def q7_def by (rule fold_part_diff) (simp_all add: qs empty_params_def diff_ok)
  have s8: "fold (apply_part pf) pseed q7 = q8"
    unfolding pseed_def q8_def by (rule fold_part_seed) (simp_all add: qs empty_params_def seed_ok)
  have "parseShareCode pf (serializeShareCode ns p)
        = fold (apply_part pf) (pv @ pm @ pw @ ph @ pk @ phd @ pdiff @ pseed) empty_params"
    using parse_joined [OF no_sep] ser by simp
  also have "\<dots> = q8"
    by (simp add: s1 s2 s3 s4 s5 s6 s7 s8)
  also have "\<dots> = p"
    by (cases p) (simp add: qs empty_params_def)
  finally show ?thesis .
qed

subsection \<open>The conversions of plain decimals\<close>

text \<open>
  An instance of the two conversions of the language, for the decimals that are written
  without an exponent, such as \<open>0.15\<close>: \<open>parseFloat\<close> skips white space, reads a sign, digits
  and, after a point, more digits; a number prints as the digits of its integer part and,
  when it is not an integer, a point and the digits of its fraction (at most 17 of them).
\<close>

definition plain_parseFloat :: "jsstring \<Rightarrow> rat number" where
  "plain_parseFloat s =
     (let s1 = dropWhile is_space s;
          negative = (s1 \<noteq> [] \<and> hd s1 = 45);
          s2 = (if s1 \<noteq> [] \<and> (hd s1 = 45 \<or> hd s1 = 43) then tl s1 else s1);
          ip = takeWhile is_digit s2;
          rest = dropWhile is_digit s2;
          fp = (if rest \<noteq> [] \<and> hd rest = 46 then takeWhile is_digit (tl rest) else []);
          magnitude = of_int (digits_value ip) + of_int (digits_value fp) / 10 ^ length fp
      in if ip = [] \<and> fp = [] then NaN
         else Num (if negative then - magnitude else magnitude))"

fun fraction_digits :: "nat \<Rightarrow> rat \<Rightarrow> jsstring" where
  "fraction_digits 0 f = []"
| "fraction_digits (Suc fuel) f =
     (if f = 0 then []
      else (let d = \<lfloor>f * 10\<rfloor> in (48 + d) # fraction_digits fuel (f * 10 - of_int d)))"

definition plain_numberToString :: "rat number \<Rightarrow> jsstring" where
  "plain_numberToString x =
     (case x of
        NaN \<Rightarrow> charCodes ''NaN''
      | Num r \<Rightarrow>
          (let magnitude = \<bar>r\<bar>;
               n = \<lfloor>magnitude\<rfloor>
           in (if r < 0 then [45] else []) @ decimal (nat n)
              @ (if magnitude = of_int n then []
                 else 46 # fraction_digits 17 (magnitude - of_int n))))"

text \<open>The request of the medium tier of mode 1, as a share code carries it.\<close>

definition share_example :: GameParams where
  "share_example =
     \<lparr>p_v = Some (Num 1), p_m = Some (Num 1), p_w = Some (Num 10), p_h = Some (Num 12),
      p_k = Some (Num 1), p_hd = Some (Num (3 / 20)), p_diff = Some (charCodes ''medium''),
      p_seed = Some (charCodes ''8f3kz2'')\<rparr>"

subsection \<open>The claim\<close>

text \<open>
  Claim C8, amended.  Serializing and parsing gives the parameters back when they are
  valid in the sense of \<open>valid_params\<close>: the numeric fields hold safe integers (or \<open>NaN\<close>),
  the hole density survives the conversions of the language, and \<open>diff\<close> and \<open>seed\<close> are
  not empty and hold neither \<open>;\<close> nor \<open>=\<close>.  Parsing is a total function, and two tokens
  with the same parts in another order give the same parameters as long as no field is
  set by two of the parts; when a key is repeated the last part wins.
\<close>

theorem share_code_round_trip:
  assumes "valid_params numberToString parseFloat params"
    and "mset (split 59 token) = mset (split 59 token')"
    and "distinct (List.map_filter part_field (split 59 token))"
  shows "parseShareCode parseFloat (serializeShareCode numberToString params) = params
         \<and> parseShareCode parseFloat (35 # token) = parseShareCode parseFloat (35 # token')"
proof -
  have "fold (apply_part parseFloat) (split 59 token) = fold (apply_part parseFloat) (split 59 token')"
    using assms(2,3) by (rule fold_parts_permuted)
  then have "parseShareCode parseFloat (35 # token) = parseShareCode parseFloat (35 # token')"
    by (simp add: parseShareCode_def)
  then show ?thesis
    using parseShareCode_serializeShareCode [OF assms(1)] by simp
qed

theorem share_code_round_trip_witness:
  "valid_params plain_numberToString plain_parseFloat share_example
   \<and> serializeShareCode plain_numberToString share_example
       = charCodes ''#v=1;m=1;w=10;h=12;k=1;hd=0.15;diff=medium;seed=8f3kz2''
   \<and> parseShareCode plain_parseFloat
         (charCodes ''#v=1;m=1;w=10;h=12;k=1;hd=0.15;diff=medium;seed=8f3kz2'') = share_example
   \<and> List.map_filter part_field (split 59 (charCodes ''seed=8f3kz2;w=10;h=12'')) = [F_seed, F_w, F_h]
   \<and> parseShareCode plain_parseFloat (charCodes ''#seed=8f3kz2;w=10;h=12'')
       = parseShareCode plain_parseFloat (charCodes ''#h=12;seed=8f3kz2;w=10'')"
proof -
  let ?token = "charCodes ''seed=8f3kz2;w=10;h=12''"
  let ?token' = "charCodes ''h=12;seed=8f3kz2;w=10''"
  have v: "valid_params plain_numberToString plain_parseFloat share_example"
    by code_simp
  have p: "split 59 ?token = [charCodes ''seed=8f3kz2'', charCodes ''w=10'', charCodes ''h=12'']"
    "split 59 ?token' = [charCodes ''h=12'', charCodes ''seed=8f3kz2'', charCodes ''w=10'']"
    by code_simp+
  have m: "mset (split 59 ?token) = mset (split 59 ?token')"
    unfolding p by simp
  have f: "List.map_filter part_field (split 59 ?token) = [F_seed, F_w, F_h]"
    by code_simp
  have d: "distinct (List.map_filter part_field (split 59 ?token))"
    unfolding f by simp
  have s: "serializeShareCode plain_numberToString share_example
           = charCodes ''#v=1;m=1;w=10;h=12;k=1;hd=0.15;diff=medium;seed=8f3kz2''"
    by code_simp
  have t: "35 # ?token = charCodes ''#seed=8f3kz2;w=10;h=12''"
    "35 # ?token' = charCodes ''#h=12;seed=8f3kz2;w=10''"
    by (simp_all add: charCodes_def)
  show ?thesis
    using share_code_round_trip [OF v m d] v f unfolding s t by simp
qed

text \<open>
  The claim C8 as it is stated fails twice.  A seed is any text that the player types,
  and the seed \<open>a=b\<close> comes back as \<open>a\<close>: the part \<open>seed=a=b\<close> is split at every \<open>=\<close> and
  only its first two pieces are read.  And the parts \<open>w=1\<close> and \<open>w=2\<close> give the width 2 in
  this order and the width 1 in the other.
\<close>

theorem share_code_counterexample:
  "serializeShareCode plain_numberToString (empty_params\<lparr>p_seed := Some (charCodes ''a=b'')\<rparr>)
     = charCodes ''#seed=a=b''
   \<and> parseShareCode plain_parseFloat (charCodes ''#seed=a=b'')
       = empty_params\<lparr>p_seed := Some (charCodes ''a'')\<rparr>
   \<and> parseShareCode plain_parseFloat
         (serializeShareCode plain_numberToString (empty_params\<lparr>p_seed := Some (charCodes ''a=b'')\<rparr>))
       \<noteq> empty_params\<lparr>p_seed := Some (charCodes ''a=b'')\<rparr>
   \<and> parseShareCode plain_parseFloat (charCodes ''#w=1;w=2'')
       = empty_params\<lparr>p_w := Some (Num 2)\<rparr>
   \<and> parseShareCode plain_parseFloat (charCodes ''#w=2;w=1'')
       = empty_params\<lparr>p_w := Some (Num 1)\<rparr>
   \<and> parseShareCode plain_parseFloat (charCodes ''#w=1;w=2'')
       \<noteq> parseShareCode plain_parseFloat (charCodes ''#w=2;w=1'')"
  by code_simp

end
